theory Spec2Isabelle
  imports Main "HOL-Library.Sublist"
begin

section \<open>Text\<close>

text \<open>
  The script \<^verbatim>\<open>scripts/update_dev_config.py\<close> works on Python \<^verbatim>\<open>str\<close> values. A
  \<^verbatim>\<open>str\<close> is modelled by a \<^typ>\<open>string\<close>: one \<^typ>\<open>char\<close> per code point, for the code
  points below 256. Python's \<^verbatim>\<open>x in s\<close> on strings is \<^const>\<open>sublist\<close>,
  \<^verbatim>\<open>s.startswith(x)\<close> is \<^const>\<open>prefix\<close> and \<^verbatim>\<open>s.endswith(x)\<close> is \<^const>\<open>suffix\<close>.

  The classes \<^verbatim>\<open>\w\<close> and \<^verbatim>\<open>\s\<close> of a \<^verbatim>\<open>str\<close> pattern are the Unicode ones; below 256 they
  are the ASCII letters, digits and underscore together with the Latin-1 letters and
  numerics, and the ASCII white space together with the separators 28 to 31, NEL (133)
  and the no-break space (160).
\<close>

definition is_word :: "char \<Rightarrow> bool" where
  "is_word c =
     (let n = (of_char c :: nat) in
        (48 \<le> n \<and> n \<le> 57) \<or> (65 \<le> n \<and> n \<le> 90) \<or> n = 95 \<or> (97 \<le> n \<and> n \<le> 122) \<or>
        n = 170 \<or> n = 178 \<or> n = 179 \<or> n = 181 \<or> n = 185 \<or> n = 186 \<or>
        (188 \<le> n \<and> n \<le> 190) \<or> (192 \<le> n \<and> n \<le> 214) \<or> (216 \<le> n \<and> n \<le> 246) \<or>
        (248 \<le> n \<and> n \<le> 255))"

definition is_space :: "char \<Rightarrow> bool" where
  "is_space c =
     (let n = (of_char c :: nat) in
        (9 \<le> n \<and> n \<le> 13) \<or> (28 \<le> n \<and> n \<le> 32) \<or> n = 133 \<or> n = 160)"

text \<open>\<^verbatim>\<open>s.replace(old, new, 1)\<close>: the first occurrence of \<open>old\<close> is replaced.\<close>

fun replace_first :: "string \<Rightarrow> string \<Rightarrow> string \<Rightarrow> string" where
  "replace_first old new [] = (if old = [] then new else [])"
| "replace_first old new (c # cs) =
     (if prefix old (c # cs) then new @ drop (length old) (c # cs)
      else c # replace_first old new cs)"

section \<open>The regular expressions of the script\<close>

text \<open>
  The patterns of the script use word boundaries, literals, greedy repetitions of a
  character class, two capturing groups and one negative lookahead on a character
  class. A pattern is the list of its items in the order of the pattern's text.
\<close>

datatype cset = CWord | CSpace | CChar char | CNot cset | CUnion cset cset

fun in_cset :: "cset \<Rightarrow> char \<Rightarrow> bool" where
  "in_cset CWord c = is_word c"
| "in_cset CSpace c = is_space c"
| "in_cset (CChar d) c = (c = d)"
| "in_cset (CNot s) c = (\<not> in_cset s c)"
| "in_cset (CUnion s t) c = (in_cset s c \<or> in_cset t c)"

datatype item =
    WordB            \<comment> \<open>\<^verbatim>\<open>\b\<close>\<close>
  | Lit string       \<comment> \<open>literal text, as \<^verbatim>\<open>re.escape\<close> gives it\<close>
  | Plus cset        \<comment> \<open>\<^verbatim>\<open>X+\<close>, greedy\<close>
  | Star cset        \<comment> \<open>\<^verbatim>\<open>X*\<close>, greedy\<close>
  | GOpen            \<comment> \<open>\<^verbatim>\<open>(\<close>\<close>
  | GClose           \<comment> \<open>\<^verbatim>\<open>)\<close>\<close>
  | NotAhead cset    \<comment> \<open>\<^verbatim>\<open>(?![X])\<close>\<close>

text \<open>
  The matcher's state is a cursor in the text: the text to its left (reversed, so that
  its head is the character before the cursor), the text to its right, the positions
  where the open groups started, and the groups captured so far.
\<close>

record mstate =
  ms_before :: string
  ms_rest :: string
  ms_open :: "nat list"
  ms_groups :: "string list"

definition advance :: "nat \<Rightarrow> mstate \<Rightarrow> mstate" where
  "advance k st =
     st\<lparr>ms_before := rev (take k (ms_rest st)) @ ms_before st, ms_rest := drop k (ms_rest st)\<rparr>"

definition word_before :: "mstate \<Rightarrow> bool" where
  "word_before st = (case ms_before st of [] \<Rightarrow> False | c # _ \<Rightarrow> is_word c)"

definition word_after :: "mstate \<Rightarrow> bool" where
  "word_after st = (case ms_rest st of [] \<Rightarrow> False | c # _ \<Rightarrow> is_word c)"

definition at_boundary :: "mstate \<Rightarrow> bool" where
  "at_boundary st = (word_before st \<noteq> word_after st)"

definition run_length :: "cset \<Rightarrow> mstate \<Rightarrow> nat" where
  "run_length cs st = length (takeWhile (in_cset cs) (ms_rest st))"

definition open_group :: "mstate \<Rightarrow> mstate" where
  "open_group st = st\<lparr>ms_open := length (ms_before st) # ms_open st\<rparr>"

definition close_group :: "mstate \<Rightarrow> mstate" where
  "close_group st =
     (case ms_open st of
        [] \<Rightarrow> st
      | p # ps \<Rightarrow>
          st\<lparr>ms_open := ps,
             ms_groups := ms_groups st @ [rev (take (length (ms_before st) - p) (ms_before st))]\<rparr>)"

text \<open>
  A greedy repetition takes as many characters as it can and gives them back one at a
  time while the rest of the pattern fails: \<open>greedy f lo n\<close> is the first success of
  \<open>f n\<close>, \<open>f (n - 1)\<close>, ..., \<open>f lo\<close>.
\<close>

primrec greedy :: "(nat \<Rightarrow> 'a option) \<Rightarrow> nat \<Rightarrow> nat \<Rightarrow> 'a option" where
  "greedy f lo 0 = (if lo = 0 then f 0 else None)"
| "greedy f lo (Suc k) =
     (if Suc k < lo then None
      else case f (Suc k) of Some r \<Rightarrow> Some r | None \<Rightarrow> greedy f lo k)"

text \<open>The backtracking matcher: the first way, in the engine's order, to match the items.\<close>

primrec rm :: "item list \<Rightarrow> mstate \<Rightarrow> mstate option" where
  "rm [] st = Some st"
| "rm (it # its) st =
     (case it of
        WordB \<Rightarrow> if at_boundary st then rm its st else None
      | Lit s \<Rightarrow> if prefix s (ms_rest st) then rm its (advance (length s) st) else None
      | Plus cs \<Rightarrow> greedy (\<lambda>k. rm its (advance k st)) 1 (run_length cs st)
      | Star cs \<Rightarrow> greedy (\<lambda>k. rm its (advance k st)) 0 (run_length cs st)
      | GOpen \<Rightarrow> rm its (open_group st)
      | GClose \<Rightarrow> rm its (close_group st)
      | NotAhead cs \<Rightarrow>
          (case ms_rest st of
             [] \<Rightarrow> rm its st
           | c # _ \<Rightarrow> if in_cset cs c then None else rm its st))"

text \<open>A match object: \<^verbatim>\<open>start()\<close>, \<^verbatim>\<open>end()\<close>, \<^verbatim>\<open>group(0)\<close> and the captured groups.\<close>

record rmatch =
  m_start :: nat
  m_end :: nat
  m_text :: string
  m_groups :: "string list"

definition match_at :: "item list \<Rightarrow> string \<Rightarrow> string \<Rightarrow> rmatch option" where
  "match_at p pre rest =
     (case rm p \<lparr>ms_before = pre, ms_rest = rest, ms_open = [], ms_groups = []\<rparr> of
        None \<Rightarrow> None
      | Some st \<Rightarrow>
          Some \<lparr>m_start = length pre, m_end = length (ms_before st),
                m_text = rev (take (length (ms_before st) - length pre) (ms_before st)),
                m_groups = ms_groups st\<rparr>)"

definition m_len :: "rmatch \<Rightarrow> nat" where
  "m_len m = m_end m - m_start m"

definition group :: "rmatch \<Rightarrow> nat \<Rightarrow> string" where
  "group m n =
     (if n = 0 then m_text m
      else if n \<le> length (m_groups m) then m_groups m ! (n - 1) else [])"

text \<open>A replacement template: literal text and group references \<^verbatim>\<open>\1\<close>, \<^verbatim>\<open>\2\<close>.\<close>

datatype tpart = TLit string | TGroup nat

fun expand :: "tpart list \<Rightarrow> rmatch \<Rightarrow> string" where
  "expand [] m = []"
| "expand (TLit s # ps) m = s @ expand ps m"
| "expand (TGroup n # ps) m = group m n @ expand ps m"

text \<open>
  \<^verbatim>\<open>re.sub\<close> and \<^verbatim>\<open>re.finditer\<close> scan the text from left to right: at each position outside
  a match the pattern is tried; the characters of a match are skipped (the counter).
  An empty match is replaced and the character after it copied.
\<close>

fun sub_scan :: "item list \<Rightarrow> tpart list \<Rightarrow> nat \<Rightarrow> string \<Rightarrow> string \<Rightarrow> string" where
  "sub_scan p t skip pre [] =
     (case (if skip = 0 then match_at p pre [] else None) of
        None \<Rightarrow> []
      | Some m \<Rightarrow> expand t m)"
| "sub_scan p t (Suc k) pre (c # cs) = sub_scan p t k (c # pre) cs"
| "sub_scan p t 0 pre (c # cs) =
     (case match_at p pre (c # cs) of
        None \<Rightarrow> c # sub_scan p t 0 (c # pre) cs
      | Some m \<Rightarrow>
          if m_len m = 0 then expand t m @ c # sub_scan p t 0 (c # pre) cs
          else expand t m @ sub_scan p t (m_len m - 1) (c # pre) cs)"

definition re_sub :: "item list \<Rightarrow> tpart list \<Rightarrow> string \<Rightarrow> string" where
  "re_sub p t s = sub_scan p t 0 [] s"

fun find_scan :: "item list \<Rightarrow> nat \<Rightarrow> string \<Rightarrow> string \<Rightarrow> rmatch list" where
  "find_scan p skip pre [] =
     (case (if skip = 0 then match_at p pre [] else None) of
        None \<Rightarrow> []
      | Some m \<Rightarrow> [m])"
| "find_scan p (Suc k) pre (c # cs) = find_scan p k (c # pre) cs"
| "find_scan p 0 pre (c # cs) =
     (case match_at p pre (c # cs) of
        None \<Rightarrow> find_scan p 0 (c # pre) cs
      | Some m \<Rightarrow> m # find_scan p (m_len m - 1) (c # pre) cs)"

definition re_finditer :: "item list \<Rightarrow> string \<Rightarrow> rmatch list" where
  "re_finditer p s = find_scan p 0 [] s"

section \<open>The constant registry\<close>

definition CONSTANTS :: "string list" where
  "CONSTANTS =
    [''kFallbackTileEstimateKb'', ''kPreviewTileZoom'', ''kPreviewTileY'', ''kPreviewTileX'',
     ''kDirectionConeHalfAngle'', ''kDirectionConeBaseLength'', ''kDirectionConeColor'',
     ''kDirectionConeOpacity'',
     ''kBottomButtonBarOffset'', ''kButtonBarHeight'', ''kAttributionSpacingAboveButtonBar'',
     ''kZoomIndicatorSpacingAboveButtonBar'', ''kScaleBarSpacingAboveButtonBar'',
     ''kZoomControlsSpacingAboveButtonBar'',
     ''kClientName'', ''kSuspectedLocationsCsvUrl'', ''kEnableDevelopmentModes'',
     ''kEnableNodeEdits'', ''kEnableNodeExtraction'',
     ''kNodeMinZoomLevel'', ''kOsmApiMinZoomLevel'', ''kMarkerTapTimeout'',
     ''kDebounceCameraRefresh'',
     ''kPreFetchAreaExpansionMultiplier'', ''kPreFetchZoomLevel'', ''kMaxPreFetchSplitDepth'',
     ''kDataRefreshIntervalSeconds'',
     ''kFollowMeAnimationDuration'', ''kMinSpeedForRotationMps'',
     ''kProximityAlertDefaultDistance'',
     ''kProximityAlertMinDistance'', ''kProximityAlertMaxDistance'', ''kProximityAlertCooldown'',
     ''kNodeDoubleTapZoomDelta'', ''kScrollWheelVelocity'', ''kPinchZoomThreshold'',
     ''kPinchMoveThreshold'', ''kRotationThreshold'',
     ''kTileFetchMaxAttempts'', ''kTileFetchInitialDelayMs'', ''kTileFetchBackoffMultiplier'',
     ''kTileFetchMaxDelayMs'',
     ''kTileFetchRandomJitterMs'', ''kMaxUserDownloadZoomSpan'', ''kMaxReasonableTileCount'',
     ''kAbsoluteMaxTileCount'',
     ''kAbsoluteMaxZoom'', ''kNodeIconDiameter'', ''kNodeDotOpacity'', ''kNodeRingColorReal'',
     ''kNodeRingColorMock'',
     ''kNodeRingColorPending'', ''kNodeRingColorEditing'', ''kNodeRingColorPendingEdit'',
     ''kNodeRingColorPendingDeletion'',
     ''kDirectionButtonMinWidth'', ''kDirectionButtonMinHeight'']"

section \<open>The rewrite engine: \<^verbatim>\<open>process_constant_in_content\<close>\<close>

text \<open>
  \<^verbatim>\<open>pattern1 = rf'\bconst\s+(\w+)\s+(\w+)\s*=\s*{re.escape(constant)}\s*;'\<close> and
  \<^verbatim>\<open>replacement1 = rf'final \1 \2 = dev.{constant};'\<close>
\<close>

definition pattern1 :: "string \<Rightarrow> item list" where
  "pattern1 constant =
     [WordB, Lit ''const'', Plus CSpace, GOpen, Plus CWord, GClose, Plus CSpace,
      GOpen, Plus CWord, GClose, Star CSpace, Lit ''='', Star CSpace, Lit constant,
      Star CSpace, Lit '';'']"

definition replacement1 :: "string \<Rightarrow> tpart list" where
  "replacement1 constant =
     [TLit ''final '', TGroup 1, TLit '' '', TGroup 2, TLit '' = dev.'', TLit constant, TLit '';'']"

text \<open>
  \<^verbatim>\<open>pattern2 = rf'\bstatic\s+const\s+(\w+)\s+(\w+)\s*=\s*{re.escape(constant)}\s*;'\<close> and
  \<^verbatim>\<open>replacement2 = rf'static final \1 \2 = dev.{constant};'\<close>
\<close>

definition pattern2 :: "string \<Rightarrow> item list" where
  "pattern2 constant =
     [WordB, Lit ''static'', Plus CSpace, Lit ''const'', Plus CSpace, GOpen, Plus CWord, GClose,
      Plus CSpace, GOpen, Plus CWord, GClose, Star CSpace, Lit ''='', Star CSpace, Lit constant,
      Star CSpace, Lit '';'']"

definition replacement2 :: "string \<Rightarrow> tpart list" where
  "replacement2 constant =
     [TLit ''static final '', TGroup 1, TLit '' '', TGroup 2, TLit '' = dev.'', TLit constant,
      TLit '';'']"

text \<open>
  \<^verbatim>\<open>const_constructor_pattern = r'\bconst\s+(\w+)\s*\([^)]*' + re.escape(constant) + r'[^)]*\)'\<close>
\<close>

definition const_constructor_pattern :: "string \<Rightarrow> item list" where
  "const_constructor_pattern constant =
     [WordB, Lit ''const'', Plus CSpace, GOpen, Plus CWord, GClose, Star CSpace, Lit ''('',
      Star (CNot (CChar CHR '')'')), Lit constant, Star (CNot (CChar CHR '')'')), Lit '')'']"

text \<open>
  The body of the loop over the reversed matches:
  \<^verbatim>\<open>replacement = full_match.replace(f'const {constructor_name}', constructor_name, 1)\<close>,
  \<^verbatim>\<open>content = content[:match.start()] + replacement + content[match.end():]\<close>
\<close>

definition site_replacement :: "rmatch \<Rightarrow> string" where
  "site_replacement m = replace_first (''const '' @ group m 1) (group m 1) (group m 0)"

definition splice :: "rmatch \<Rightarrow> string \<Rightarrow> string" where
  "splice m content = take (m_start m) content @ site_replacement m @ drop (m_end m) content"

text \<open>
  \<^verbatim>\<open>pattern4 = rf'\b{re.escape(constant)}\b(?![\w.])'\<close> and
  \<^verbatim>\<open>replacement4 = f'dev.{constant}'\<close>
\<close>

definition pattern4 :: "string \<Rightarrow> item list" where
  "pattern4 constant =
     [WordB, Lit constant, WordB, NotAhead (CUnion CWord (CChar CHR ''.''))]"

definition replacement4 :: "string \<Rightarrow> tpart list" where
  "replacement4 constant = [TLit ''dev.'', TLit constant]"

text \<open>
  The engine returns the new content and whether it changed. The constant is an
  identifier (it holds no backslash), so the replacement templates hold it as text.
\<close>

definition process_constant_in_content :: "string \<Rightarrow> string \<Rightarrow> string \<times> bool" where
  "process_constant_in_content content constant =
     (if sublist (''dev.'' @ constant) content then (content, False)
      else if \<not> sublist constant content then (content, False)
      else
        let c1 = re_sub (pattern1 constant) (replacement1 constant) content;
            c2 = re_sub (pattern2 constant) (replacement2 constant) c1;
            matches = re_finditer (const_constructor_pattern constant) c2;
            c3 = fold splice (rev matches) c2;
            c4 = re_sub (pattern4 constant) (replacement4 constant) c3
        in (c4, c4 \<noteq> content))"

section \<open>File discovery: \<^verbatim>\<open>find_dart_files\<close>\<close>

text \<open>
  The directory tree under the working directory: a directory holds its entries in the
  order in which the system lists them. \<^verbatim>\<open>os.walk('.')\<close> yields, top down, a directory's
  path with the names of its subdirectories and of its files, then walks each
  subdirectory; a directory it cannot list counts as empty.
\<close>

datatype node = File string | Dir string "node list"

fun dir_names :: "node list \<Rightarrow> string list" where
  "dir_names [] = []"
| "dir_names (File f # es) = dir_names es"
| "dir_names (Dir d sub # es) = d # dir_names es"

fun file_names :: "node list \<Rightarrow> string list" where
  "file_names [] = []"
| "file_names (File f # es) = f # file_names es"
| "file_names (Dir d sub # es) = file_names es"

text \<open>\<^verbatim>\<open>os.path.join(a, b)\<close> on a POSIX system.\<close>

definition os_path_join :: "string \<Rightarrow> string \<Rightarrow> string" where
  "os_path_join a b =
     (if prefix ''/'' b then b
      else if a = [] \<or> suffix ''/'' a then a @ b
      else a @ ''/'' @ b)"

fun walk :: "string \<Rightarrow> node list \<Rightarrow> (string \<times> string list \<times> string list) list"
  and walk_dirs :: "string \<Rightarrow> node list \<Rightarrow> (string \<times> string list \<times> string list) list" where
  "walk dirpath es = (dirpath, dir_names es, file_names es) # walk_dirs dirpath es"
| "walk_dirs dirpath [] = []"
| "walk_dirs dirpath (File f # es) = walk_dirs dirpath es"
| "walk_dirs dirpath (Dir d sub # es) = walk (os_path_join dirpath d) sub @ walk_dirs dirpath es"

definition find_dart_files :: "node list \<Rightarrow> string list" where
  "find_dart_files tree =
     [path. (root, dirs, files) \<leftarrow> walk ''.'' tree, file \<leftarrow> files, suffix ''.dart'' file,
            path \<leftarrow> [os_path_join root file], \<not> sublist ''dev_config.dart'' path]"

section \<open>The orchestrator: \<^verbatim>\<open>process_file\<close> and \<^verbatim>\<open>main\<close>\<close>

text \<open>
  What the script prints, one constructor for each \<^verbatim>\<open>print\<close>; an exception that the
  script catches is a value of \<open>io_error\<close>.
\<close>

datatype io_error = ReadError | OpenError | WriteError

datatype msg =
    Starting | Finding | Found nat | NoDartFiles
  | Processing string | ErrorReading io_error | Replacing string
  | Updated "string list" | ErrorWriting io_error | NoChangesNeeded
  | Finished nat nat | NextSteps | StepAnalyze | StepPubGet | StepRun | RunAgain

text \<open>
  The world of a run: the tree, what reading a path gives (its text, or the exception
  that \<^verbatim>\<open>open\<close> or \<^verbatim>\<open>read\<close> raises), whether writing a path fails (at \<^verbatim>\<open>open\<close>, which
  leaves the file as it is, or later, when \<^verbatim>\<open>open\<close> has emptied it and only the first
  \<open>wkept\<close> characters of the new content have reached it), the console, and the log of
  the writes the script started.
\<close>

record world =
  tree :: "node list"
  disk :: "string \<Rightarrow> io_error + string"
  wfault :: "string \<Rightarrow> io_error option"
  wkept :: "string \<Rightarrow> nat"
  out :: "msg list"
  wlog :: "(string \<times> string) list"

definition print :: "msg \<Rightarrow> world \<Rightarrow> world" where
  "print m w = w\<lparr>out := out w @ [m]\<rparr>"

definition write_file :: "string \<Rightarrow> string \<Rightarrow> world \<Rightarrow> io_error option \<times> world" where
  "write_file path content w =
     (let w' = w\<lparr>wlog := wlog w @ [(path, content)]\<rparr> in
      case wfault w path of
        None \<Rightarrow> (None, w'\<lparr>disk := (disk w)(path := Inr content)\<rparr>)
      | Some OpenError \<Rightarrow> (Some OpenError, w')
      | Some e \<Rightarrow> (Some e, w'\<lparr>disk := (disk w)(path := Inr (take (wkept w path) content))\<rparr>))"

text \<open>
  The loop \<^verbatim>\<open>for constant in CONSTANTS\<close> of \<^verbatim>\<open>process_file\<close>: the content, the list
  \<^verbatim>\<open>changes_made\<close> and what \<^verbatim>\<open>process_constant_in_content\<close> prints.
\<close>

definition replacing :: "string \<Rightarrow> string \<Rightarrow> msg list" where
  "replacing content constant =
     (if sublist (''dev.'' @ constant) content then []
      else if \<not> sublist constant content then []
      else [Replacing constant])"

definition constant_step :: "string \<Rightarrow> string \<times> string list \<times> msg list \<Rightarrow> string \<times> string list \<times> msg list" where
  "constant_step constant acc =
     (case acc of (content, changes_made, printed) \<Rightarrow>
        (case process_constant_in_content content constant of (content', changed) \<Rightarrow>
           (content', if changed then changes_made @ [constant] else changes_made,
            printed @ replacing content constant)))"

definition process_constants :: "string list \<Rightarrow> string \<Rightarrow> string \<times> string list \<times> msg list" where
  "process_constants cs content = fold constant_step cs (content, [], [])"

definition process_file :: "string \<Rightarrow> world \<Rightarrow> bool \<times> world" where
  "process_file filepath w0 =
     (let w1 = print (Processing filepath) w0 in
      case disk w1 filepath of
        Inl e \<Rightarrow> (False, print (ErrorReading e) w1)
      | Inr original_content \<Rightarrow>
          (case process_constants CONSTANTS original_content of (content, changes_made, printed) \<Rightarrow>
             let w2 = w1\<lparr>out := out w1 @ printed\<rparr> in
             if content \<noteq> original_content then
               (case write_file filepath content w2 of
                  (None, w3) \<Rightarrow> (True, print (Updated changes_made) w3)
                | (Some e, w3) \<Rightarrow> (False, print (ErrorWriting e) w3))
             else (False, print NoChangesNeeded w2)))"

text \<open>The loop of \<^verbatim>\<open>main\<close> over the files, with the counter \<^verbatim>\<open>updated_files\<close>.\<close>

fun process_files :: "string list \<Rightarrow> nat \<Rightarrow> world \<Rightarrow> nat \<times> world" where
  "process_files [] updated_files w = (updated_files, w)"
| "process_files (filepath # fs) updated_files w =
     (case process_file filepath w of
        (True, w') \<Rightarrow> process_files fs (updated_files + 1) w'
      | (False, w') \<Rightarrow> process_files fs updated_files w')"

definition main :: "world \<Rightarrow> world" where
  "main w0 =
     (let w1 = print Finding (print Starting w0);
          dart_files = find_dart_files (tree w1);
          w2 = print (Found (length dart_files)) w1
      in if dart_files = [] then print NoDartFiles w2
         else
           (case process_files dart_files 0 w2 of (updated_files, w3) \<Rightarrow>
              let w4 = print StepRun (print StepPubGet (print StepAnalyze (print NextSteps
                         (print (Finished updated_files (length dart_files)) w3))))
              in if updated_files > 0 then print RunAgain w4 else w4))"

section \<open>Observations of a run\<close>

text \<open>
  One full pass: the content after the engine has run for every constant of the
  registry, in the registry's order.
\<close>

definition full_pass :: "string \<Rightarrow> string" where
  "full_pass content = fst (process_constants CONSTANTS content)"

text \<open>
  Read off the console: the files whose processing was announced, the number of
  \<^verbatim>\<open>Updated\<close> lines, and the closing lines of \<^verbatim>\<open>main\<close> for a tally \<open>k\<close> of \<open>n\<close> files.
\<close>

fun processed :: "msg list \<Rightarrow> string list" where
  "processed [] = []"
| "processed (Processing p # ms) = p # processed ms"
| "processed (m # ms) = processed ms"

fun updates :: "msg list \<Rightarrow> nat" where
  "updates [] = 0"
| "updates (Updated cs # ms) = Suc (updates ms)"
| "updates (m # ms) = updates ms"

definition summary :: "nat \<Rightarrow> nat \<Rightarrow> msg list" where
  "summary k n =
     [Finished k n, NextSteps, StepAnalyze, StepPubGet, StepRun] @ (if 0 < k then [RunAgain] else [])"

text \<open>
  A tree as a file system holds it: in every directory the names of the entries differ
  from one another, and a name is not empty and holds no slash.
\<close>

fun entry_name :: "node \<Rightarrow> string" where
  "entry_name (File f) = f"
| "entry_name (Dir d sub) = d"

definition wf_name :: "string \<Rightarrow> bool" where
  "wf_name n = (n \<noteq> [] \<and> CHR ''/'' \<notin> set n)"

fun wf_node :: "node \<Rightarrow> bool" where
  "wf_node (File f) = wf_name f"
| "wf_node (Dir d sub) = (wf_name d \<and> distinct (map entry_name sub) \<and> list_all wf_node sub)"

definition wf_tree :: "node list \<Rightarrow> bool" where
  "wf_tree es = (distinct (map entry_name es) \<and> list_all wf_node es)"

text \<open>
  The paths of the files that a walk yields, and the same files as lists of path
  components below the directory where the walk starts, in the order of the walk.
\<close>

definition file_paths_of :: "(string \<times> string list \<times> string list) list \<Rightarrow> (string \<times> string) list" where
  "file_paths_of ts = concat (map (\<lambda>(root, dirs, files). map (\<lambda>f. (f, os_path_join root f)) files) ts)"

fun cpaths :: "node list \<Rightarrow> string list list"
  and cdirs :: "node list \<Rightarrow> string list list" where
  "cpaths es = map (\<lambda>f. [f]) (file_names es) @ cdirs es"
| "cdirs [] = []"
| "cdirs (File f # es) = cdirs es"
| "cdirs (Dir d sub # es) = map ((#) d) (cpaths sub) @ cdirs es"

definition render :: "string \<Rightarrow> string list \<Rightarrow> string" where
  "render dirpath cs = dirpath @ concat (map ((@) ''/'') cs)"

text \<open>A directory path to which a name can be joined with a slash.\<close>

definition good_dir :: "string \<Rightarrow> bool" where
  "good_dir dirpath = (dirpath \<noteq> [] \<and> last dirpath \<noteq> CHR ''/'')"

text \<open>
  The write that is due for a path in a world: the content after the full pass, when
  the path can be read and the full pass changes what it holds. \<open>started w\<close> is the world
  when \<^verbatim>\<open>main\<close> enters its loop.
\<close>

definition due_write :: "world \<Rightarrow> string \<Rightarrow> (string \<times> string) list" where
  "due_write w q =
     (case disk w q of
        Inl e \<Rightarrow> []
      | Inr c \<Rightarrow> if full_pass c \<noteq> c then [(q, full_pass c)] else [])"

definition started :: "world \<Rightarrow> world" where
  "started w = print (Found (length (find_dart_files (tree w)))) (print Finding (print Starting w))"

text \<open>
  Three worlds to run the script in: three files of which the first holds a bare usage,
  the second nothing to rewrite and the third cannot be read; the same with every
  write failing at \<^verbatim>\<open>open\<close>; and an empty tree.
\<close>

definition example_world :: world where
  "example_world =
     \<lparr>tree = [File ''a.dart'', File ''b.dart'', File ''c.dart''],
      disk = (\<lambda>p. if p = ''./a.dart'' then Inr ''double a = kScrollWheelVelocity * 2;''
                  else if p = ''./b.dart'' then Inr ''int x = 1;''
                  else Inl ReadError),
      wfault = (\<lambda>p. None), wkept = (\<lambda>p. 0),
      out = [], wlog = []\<rparr>"

definition faulty_world :: world where
  "faulty_world = example_world\<lparr>wfault := (\<lambda>p. Some OpenError)\<rparr>"


section \<open>The stages of the engine\<close>

text \<open>
  The engine's rules, named: the loop over the reversed construction-site matches, the
  content before the bare-usage rule runs (the value of \<^verbatim>\<open>content\<close> after the loop), and
  the bare-usage rule.
\<close>

definition construction_rule :: "string \<Rightarrow> string \<Rightarrow> string" where
  "construction_rule content constant =
     fold splice (rev (re_finditer (const_constructor_pattern constant) content)) content"

definition after_rule3 :: "string \<Rightarrow> string \<Rightarrow> string" where
  "after_rule3 content constant =
     construction_rule
       (re_sub (pattern2 constant) (replacement2 constant)
          (re_sub (pattern1 constant) (replacement1 constant) content))
       constant"

definition bare_usage_rule :: "string \<Rightarrow> string \<Rightarrow> string" where
  "bare_usage_rule content constant = re_sub (pattern4 constant) (replacement4 constant) content"

text \<open>
  The same content built from left to right: the text between the matches as it is, each
  match replaced. \<open>within pos len ms\<close>: the matches \<open>ms\<close> lie one after the other between
  the positions \<open>pos\<close> and \<open>len\<close>.
\<close>

fun rebuild :: "rmatch list \<Rightarrow> string \<Rightarrow> nat \<Rightarrow> string" where
  "rebuild [] content pos = drop pos content"
| "rebuild (m # ms) content pos =
     take (m_start m - pos) (drop pos content) @ site_replacement m @ rebuild ms content (m_end m)"

fun within :: "nat \<Rightarrow> nat \<Rightarrow> rmatch list \<Rightarrow> bool" where
  "within pos len [] = True"
| "within pos len (m # ms) =
     (pos \<le> m_start m \<and> m_start m \<le> m_end m \<and> m_end m \<le> len \<and> within (m_end m) len ms)"

text \<open>The matcher moves its cursor to the right only: \<open>moved st st'\<close>.\<close>

definition moved :: "mstate \<Rightarrow> mstate \<Rightarrow> bool" where
  "moved st st' =
     (\<exists>n\<le>length (ms_rest st).
         ms_before st' = rev (take n (ms_rest st)) @ ms_before st \<and> ms_rest st' = drop n (ms_rest st))"

text \<open>
  For the bare-usage rule: whether the character before a position is a word character
  (the context is the text to the left, reversed), whether what follows an identifier
  lets the rule's lookahead pass (the end of the text, or a character that is neither a
  word character nor a dot), and the rule's scan from a cursor.
\<close>

definition word_ctx :: "string \<Rightarrow> bool" where
  "word_ctx ctx = (case ctx of [] \<Rightarrow> False | c # _ \<Rightarrow> is_word c)"

definition follow_ok :: "string \<Rightarrow> bool" where
  "follow_ok ss = (case ss of [] \<Rightarrow> True | c # _ \<Rightarrow> \<not> is_word c \<and> c \<noteq> CHR ''.'')"


definition qualify :: "string \<Rightarrow> string \<Rightarrow> string \<Rightarrow> string" where
  "qualify k pre s = sub_scan (pattern4 k) (replacement4 k) 0 pre s"


section \<open>The orchestrator: what a run prints and writes\<close>

lemma processed_append: "processed (xs @ ys) = processed xs @ processed ys"
  by (induction xs rule: processed.induct) auto

lemma updates_append: "updates (xs @ ys) = updates xs + updates ys"
  by (induction xs rule: updates.induct) auto

lemma replacing_cases: "replacing c k = [] \<or> replacing c k = [Replacing k]"
  by (simp add: replacing_def)

lemma fold_constant_step_printed:
  "\<exists>ms. snd (snd (fold constant_step cs (c, ch, pr))) = pr @ ms
        \<and> processed ms = [] \<and> updates ms = 0"
proof (induction cs arbitrary: c ch pr)
  case Nil
  then show ?case by simp
next
  case (Cons k cs)
  obtain c' b where e: "process_constant_in_content c k = (c', b)"
    by (cases "process_constant_in_content c k")
  let ?ch = "if b then ch @ [k] else ch"
  from Cons.IH [of c' ?ch "pr @ replacing c k"]
  obtain ms where ms: "snd (snd (fold constant_step cs (c', ?ch, pr @ replacing c k))) = (pr @ replacing c k) @ ms"
      "processed ms = []" "updates ms = 0"
    by blast
  have "snd (snd (fold constant_step (k # cs) (c, ch, pr))) = pr @ (replacing c k @ ms)"
    using ms(1) by (simp add: constant_step_def e)
  moreover have "processed (replacing c k @ ms) = []" "updates (replacing c k @ ms) = 0"
    using ms(2,3) replacing_cases [of c k] by (auto simp: processed_append updates_append)
  ultimately show ?case by blast
qed

lemma process_constants_printed:
  "processed (snd (snd (process_constants cs c))) = []
   \<and> updates (snd (snd (process_constants cs c))) = 0"
  using fold_constant_step_printed [of cs c "[]" "[]"] by (auto simp: process_constants_def)

lemma process_file_read_error:
  "disk w p = Inl e \<Longrightarrow>
     process_file p w = (False, print (ErrorReading e) (print (Processing p) w))"
  by (simp add: process_file_def print_def)

lemma process_file_unchanged:
  assumes "disk w p = Inr c" "full_pass c = c"
  shows "process_file p w =
    (False, w\<lparr>out := out w @ [Processing p] @ snd (snd (process_constants CONSTANTS c)) @ [NoChangesNeeded]\<rparr>)"
  using assms
  by (cases "process_constants CONSTANTS c") (simp add: process_file_def print_def full_pass_def)

lemma process_file_changed:
  assumes "disk w p = Inr c" "full_pass c \<noteq> c"
  shows "process_file p w =
    (case wfault w p of
       None \<Rightarrow> (True, w\<lparr>out := out w @ [Processing p] @ snd (snd (process_constants CONSTANTS c))
                           @ [Updated (fst (snd (process_constants CONSTANTS c)))],
                        wlog := wlog w @ [(p, full_pass c)],
                        disk := (disk w)(p := Inr (full_pass c))\<rparr>)
     | Some OpenError \<Rightarrow> (False, w\<lparr>out := out w @ [Processing p] @ snd (snd (process_constants CONSTANTS c))
                           @ [ErrorWriting OpenError],
                        wlog := wlog w @ [(p, full_pass c)]\<rparr>)
     | Some e \<Rightarrow> (False, w\<lparr>out := out w @ [Processing p] @ snd (snd (process_constants CONSTANTS c))
                           @ [ErrorWriting e],
                        wlog := wlog w @ [(p, full_pass c)],
                        disk := (disk w)(p := Inr (take (wkept w p) (full_pass c)))\<rparr>))"
  using assms
  by (cases "process_constants CONSTANTS c")
     (auto simp: process_file_def print_def full_pass_def write_file_def Let_def
           split: option.splits io_error.splits)


lemma process_file_effect:
  "\<exists>ms ws. out (snd (process_file p w)) = out w @ ms
      \<and> wlog (snd (process_file p w)) = wlog w @ ws
      \<and> tree (snd (process_file p w)) = tree w
      \<and> wfault (snd (process_file p w)) = wfault w
      \<and> processed ms = [p]
      \<and> updates ms = (if fst (process_file p w) then 1 else 0)
      \<and> (ws = [] \<or> (\<exists>c. ws = [(p, c)]))"
proof (cases "disk w p")
  case (Inl e)
  then show ?thesis
    by (simp add: process_file_read_error print_def)
next
  case (Inr c)
  note pr = process_constants_printed [of CONSTANTS c]
  show ?thesis
  proof (cases "full_pass c = c")
    case True
    with Inr pr show ?thesis
      by (simp add: process_file_unchanged processed_append updates_append)
  next
    case False
    with Inr pr show ?thesis
      by (simp add: process_file_changed processed_append updates_append
               split: option.splits io_error.splits)
  qed
qed

lemma process_files_effect:
  "\<exists>ms ws. out (snd (process_files fs n w)) = out w @ ms
      \<and> wlog (snd (process_files fs n w)) = wlog w @ ws
      \<and> tree (snd (process_files fs n w)) = tree w
      \<and> processed ms = fs
      \<and> fst (process_files fs n w) = n + updates ms
      \<and> (\<forall>q. count_list (map fst ws) q \<le> count_list fs q)"
proof (induction fs arbitrary: n w)
  case Nil
  then show ?case by simp
next
  case (Cons p fs)
  obtain r w' where e: "process_file p w = (r, w')"
    by (cases "process_file p w")
  from process_file_effect [of p w] e
  obtain ms ws where h: "out w' = out w @ ms" "wlog w' = wlog w @ ws" "tree w' = tree w"
      "processed ms = [p]" "updates ms = (if r then 1 else 0)"
      "ws = [] \<or> (\<exists>c. ws = [(p, c)])"
    by auto
  let ?n = "if r then n + 1 else n"
  from Cons.IH [of ?n w']
  obtain ms' ws' where h': "out (snd (process_files fs ?n w')) = out w' @ ms'"
      "wlog (snd (process_files fs ?n w')) = wlog w' @ ws'"
      "tree (snd (process_files fs ?n w')) = tree w'"
      "processed ms' = fs"
      "fst (process_files fs ?n w') = ?n + updates ms'"
      "\<forall>q. count_list (map fst ws') q \<le> count_list fs q"
    by blast
  have pf: "process_files (p # fs) n w = process_files fs ?n w'"
    using e by (cases r) simp_all
  have c: "\<forall>q. count_list (map fst (ws @ ws')) q \<le> count_list (p # fs) q"
  proof
    fix q
    have "count_list (map fst ws) q \<le> (if q = p then 1 else 0)"
      using h(6) by auto
    moreover have "count_list (map fst ws') q \<le> count_list fs q"
      using h'(6) by blast
    ultimately show "count_list (map fst (ws @ ws')) q \<le> count_list (p # fs) q"
      by (simp split: if_splits)
  qed
  have "out (snd (process_files (p # fs) n w)) = out w @ (ms @ ms')"
    "wlog (snd (process_files (p # fs) n w)) = wlog w @ (ws @ ws')"
    "tree (snd (process_files (p # fs) n w)) = tree w"
    "processed (ms @ ms') = p # fs"
    "fst (process_files (p # fs) n w) = n + updates (ms @ ms')"
    using h h' unfolding pf by (simp_all add: processed_append updates_append)
  with c show ?case by blast
qed

lemma main_no_files:
  "find_dart_files (tree w) = [] \<Longrightarrow>
     main w = w\<lparr>out := out w @ [Starting, Finding, Found 0, NoDartFiles]\<rparr>"
  by (simp add: main_def print_def Let_def)

lemma main_some_files:
  assumes "find_dart_files (tree w) \<noteq> []"
  shows "\<exists>ms ws. out (main w) =
            out w @ [Starting, Finding, Found (length (find_dart_files (tree w)))] @ ms
              @ summary (updates ms) (length (find_dart_files (tree w)))
        \<and> processed ms = find_dart_files (tree w)
        \<and> wlog (main w) = wlog w @ ws
        \<and> (\<forall>q. count_list (map fst ws) q \<le> count_list (find_dart_files (tree w)) q)"
proof -
  let ?fs = "find_dart_files (tree w)"
  let ?w2 = "print (Found (length ?fs)) (print Finding (print Starting w))"
  obtain k w3 where e: "process_files ?fs 0 ?w2 = (k, w3)"
    by (cases "process_files ?fs 0 ?w2")
  from process_files_effect [of ?fs 0 ?w2] e
  obtain ms ws where h: "out w3 = out ?w2 @ ms" "wlog w3 = wlog ?w2 @ ws"
      "processed ms = ?fs" "k = updates ms"
      "\<forall>q. count_list (map fst ws) q \<le> count_list ?fs q"
    by auto
  have "out (main w) = out w @ [Starting, Finding, Found (length ?fs)] @ ms
              @ summary (updates ms) (length ?fs)"
    using assms e h(1,4) by (simp add: main_def print_def Let_def summary_def)
  moreover have "wlog (main w) = wlog w @ ws"
    using assms e h(2) by (simp add: main_def print_def Let_def)
  ultimately show ?thesis using h(3,5) by blast
qed

lemma distinct_count_list_le: "distinct xs \<Longrightarrow> count_list xs x \<le> 1"
  by (induction xs) (auto simp: count_list_0_iff)

lemma process_file_wlog: "wlog (snd (process_file p w)) = wlog w @ due_write w p"
proof (cases "disk w p")
  case (Inl e)
  then show ?thesis
    by (simp add: process_file_read_error print_def due_write_def)
next
  case (Inr c)
  then show ?thesis
    by (cases "full_pass c = c")
       (simp_all add: process_file_unchanged process_file_changed due_write_def
          split: option.splits io_error.splits)
qed

lemma process_file_frame: "q \<noteq> p \<Longrightarrow> disk (snd (process_file p w)) q = disk w q"
proof (cases "disk w p")
  case (Inl e)
  then show ?thesis
    by (simp add: process_file_read_error print_def)
next
  case (Inr c)
  assume "q \<noteq> p"
  with Inr show ?thesis
    by (cases "full_pass c = c")
       (simp_all add: process_file_unchanged process_file_changed
          split: option.splits io_error.splits)
qed

lemma process_file_no_write: "due_write w p = [] \<Longrightarrow> disk (snd (process_file p w)) = disk w"
proof (cases "disk w p")
  case (Inl e)
  then show ?thesis
    by (simp add: process_file_read_error print_def)
next
  case (Inr c)
  assume "due_write w p = []"
  with Inr have "full_pass c = c"
    by (simp add: due_write_def split: if_splits)
  with Inr show ?thesis
    by (simp add: process_file_unchanged)
qed

lemma process_file_written:
  assumes "disk w p = Inr c" "full_pass c \<noteq> c" "wfault w p = None"
  shows "disk (snd (process_file p w)) = (disk w)(p := Inr (full_pass c))"
    and "fst (process_file p w)"
  using assms by (simp_all add: process_file_changed)

lemma process_file_wfault: "wfault (snd (process_file p w)) = wfault w"
  using process_file_effect [of p w] by blast

lemma process_files_step:
  "process_files (p # fs) n w =
     process_files fs (if fst (process_file p w) then n + 1 else n) (snd (process_file p w))"
  by (cases "process_file p w") (auto split: bool.splits)

lemma process_files_frame:
  "q \<notin> set fs \<Longrightarrow> disk (snd (process_files fs n w)) q = disk w q"
proof (induction fs arbitrary: n w)
  case Nil
  then show ?case by simp
next
  case (Cons p fs)
  then have q: "q \<noteq> p" "q \<notin> set fs" by auto
  let ?w' = "snd (process_file p w)" and ?n = "if fst (process_file p w) then n + 1 else n"
  have "disk (snd (process_files fs ?n ?w')) q = disk ?w' q"
    by (rule Cons.IH [OF q(2)])
  also have "\<dots> = disk w q"
    by (rule process_file_frame [OF q(1)])
  finally show ?case by (simp only: process_files_step)
qed

lemma due_write_cong: "disk w' q = disk w q \<Longrightarrow> due_write w' q = due_write w q"
  by (simp add: due_write_def)

lemma process_files_wlog:
  "distinct fs \<Longrightarrow>
     wlog (snd (process_files fs n w)) = wlog w @ concat (map (due_write w) fs)"
proof (induction fs arbitrary: n w)
  case Nil
  then show ?case by simp
next
  case (Cons p fs)
  let ?w' = "snd (process_file p w)" and ?n = "if fst (process_file p w) then n + 1 else n"
  from Cons.prems have d: "p \<notin> set fs" "distinct fs" by auto
  have "map (due_write ?w') fs = map (due_write w) fs"
  proof (rule map_cong [OF refl])
    fix q assume "q \<in> set fs"
    with d(1) have "q \<noteq> p" by auto
    then show "due_write ?w' q = due_write w q"
      by (intro due_write_cong process_file_frame)
  qed
  with Cons.IH [OF d(2), of ?n ?w'] show ?case
    by (simp only: process_files_step process_file_wlog) simp
qed

lemma process_files_untouched:
  "due_write w q = [] \<Longrightarrow> distinct fs \<Longrightarrow> disk (snd (process_files fs n w)) q = disk w q"
proof (induction fs arbitrary: n w)
  case Nil
  then show ?case by simp
next
  case (Cons p fs)
  let ?w' = "snd (process_file p w)" and ?n = "if fst (process_file p w) then n + 1 else n"
  from Cons.prems have d: "p \<notin> set fs" "distinct fs" by auto
  show ?case
  proof (cases "q = p")
    case True
    with d(1) have "disk (snd (process_files fs ?n ?w')) q = disk ?w' q"
      by (intro process_files_frame) simp
    also have "\<dots> = disk w q"
      using Cons.prems(1) True by (simp add: process_file_no_write)
    finally show ?thesis by (simp only: process_files_step)
  next
    case False
    then have e: "disk ?w' q = disk w q" by (rule process_file_frame)
    then have "due_write ?w' q = []"
      using Cons.prems(1) by (simp add: due_write_def)
    from Cons.IH [OF this d(2), of ?n] e show ?thesis
      by (simp only: process_files_step)
  qed
qed

lemma process_files_written:
  assumes "distinct fs" "q \<in> set fs" "disk w q = Inr c" "full_pass c \<noteq> c" "wfault w q = None"
  shows "disk (snd (process_files fs n w)) q = Inr (full_pass c)"
  using assms
proof (induction fs arbitrary: n w)
  case Nil
  then show ?case by simp
next
  case (Cons p fs)
  let ?w' = "snd (process_file p w)" and ?n = "if fst (process_file p w) then n + 1 else n"
  from Cons.prems have d: "p \<notin> set fs" "distinct fs" by auto
  show ?case
  proof (cases "q = p")
    case True
    with d(1) have "disk (snd (process_files fs ?n ?w')) q = disk ?w' q"
      by (intro process_files_frame) simp
    also have "\<dots> = Inr (full_pass c)"
      using process_file_written(1) [of w p c] Cons.prems(3,4,5) True by simp
    finally show ?thesis by (simp only: process_files_step)
  next
    case False
    with Cons.prems(2) have m: "q \<in> set fs" by simp
    have e: "disk ?w' q = Inr c" "wfault ?w' q = None"
      using False Cons.prems(3,5) by (simp_all add: process_file_frame process_file_wfault)
    from Cons.IH [OF d(2) m e(1) Cons.prems(4) e(2), of ?n] show ?thesis
      by (simp only: process_files_step)
  qed
qed

lemma main_files:
  "disk (main w) = disk (snd (process_files (find_dart_files (tree w)) 0 (started w)))"
  "wlog (main w) = wlog (snd (process_files (find_dart_files (tree w)) 0 (started w)))"
proof -
  let ?fs = "find_dart_files (tree w)"
  obtain k w3 where e: "process_files ?fs 0 (started w) = (k, w3)"
    by (cases "process_files ?fs 0 (started w)")
  have s: "print (Found (length ?fs)) (print Finding (print Starting w)) = started w"
    by (simp add: started_def)
  show "disk (main w) = disk (snd (process_files ?fs 0 (started w)))"
    using e by (cases "?fs = []") (simp_all add: main_def Let_def print_def started_def)
  show "wlog (main w) = wlog (snd (process_files ?fs 0 (started w)))"
    using e by (cases "?fs = []") (simp_all add: main_def Let_def print_def started_def)
qed

lemma started_same:
  "disk (started w) = disk w" "wlog (started w) = wlog w" "wfault (started w) = wfault w"
  "due_write (started w) = due_write w"
  by (simp_all add: started_def print_def due_write_def fun_eq_iff)

section \<open>The paths that file discovery lists\<close>

lemma find_dart_files_pairs:
  "find_dart_files es =
     map snd (filter (\<lambda>(f, p). suffix ''.dart'' f \<and> \<not> sublist ''dev_config.dart'' p)
               (file_paths_of (walk ''.'' es)))"
proof -
  have inner: "concat (map (\<lambda>file. if A file then concat (map (\<lambda>path. if B path then [path] else []) [j file]) else []) files)
        = map snd (filter (\<lambda>(f, p). A f \<and> B p) (map (\<lambda>f. (f, j f)) files))"
    for A B and j :: "string \<Rightarrow> string" and files
    by (induction files) auto
  have outer: "concat (map (\<lambda>(root, dirs, files).
           concat (map (\<lambda>file. if A file then concat (map (\<lambda>path. if B path then [path] else []) [os_path_join root file]) else []) files)) ts)
        = map snd (filter (\<lambda>(f, p). A f \<and> B p) (file_paths_of ts))"
    for A B ts
    by (induction ts) (auto simp: file_paths_of_def inner)
  show ?thesis
    unfolding find_dart_files_def by (simp add: outer [symmetric])
qed

lemma join_wf_name:
  assumes "good_dir dirpath" "wf_name n"
  shows "os_path_join dirpath n = dirpath @ ''/'' @ n" "good_dir (os_path_join dirpath n)"
proof -
  from assms(2) have n: "n \<noteq> []" "hd n \<noteq> CHR ''/''" "last n \<noteq> CHR ''/''"
    by (auto simp: wf_name_def dest: hd_in_set last_in_set)
  from n(1,2) have p: "\<not> prefix ''/'' n" by (cases n) auto
  from assms(1) have s: "dirpath \<noteq> []" "\<not> suffix ''/'' dirpath"
    by (auto simp: good_dir_def suffix_def)
  from p s show j: "os_path_join dirpath n = dirpath @ ''/'' @ n"
    by (simp add: os_path_join_def)
  from n(1,3) show "good_dir (os_path_join dirpath n)"
    by (simp add: j good_dir_def)
qed

lemma file_names_wf: "list_all wf_node es \<Longrightarrow> list_all wf_name (file_names es)"
  by (induction es rule: file_names.induct) auto

lemma walk_render:
  "good_dir dirpath \<Longrightarrow> list_all wf_node es \<Longrightarrow>
     map snd (file_paths_of (walk dirpath es)) = map (render dirpath) (cpaths es)"
  "good_dir dirpath \<Longrightarrow> list_all wf_node es \<Longrightarrow>
     map snd (file_paths_of (walk_dirs dirpath es)) = map (render dirpath) (cdirs es)"
proof (induction dirpath es and dirpath es rule: walk_walk_dirs.induct)
  case (1 dirpath es)
  have "map (os_path_join dirpath) (file_names es) = map (render dirpath) (map (\<lambda>f. [f]) (file_names es))"
    using file_names_wf [OF 1(3)] 1(2)
    by (auto simp: list_all_iff render_def join_wf_name)
  moreover have "map snd (file_paths_of (walk_dirs dirpath es)) = map (render dirpath) (cdirs es)"
    by (rule 1(1) [OF 1(2,3)])
  ultimately show ?case
    by (simp add: file_paths_of_def comp_def)
next
  case (2 dirpath)
  then show ?case by (simp add: file_paths_of_def)
next
  case (3 dirpath f es)
  then show ?case by simp
next
  case (4 dirpath d sub es)
  from 4(4) have w: "wf_name d" "list_all wf_node sub" "list_all wf_node es"
    by auto
  note j = join_wf_name [OF 4(3) w(1)]
  have a: "map snd (file_paths_of (walk (os_path_join dirpath d) sub))
            = map (render (os_path_join dirpath d)) (cpaths sub)"
    by (rule 4(1) [OF j(2) w(2)])
  have b: "map snd (file_paths_of (walk_dirs dirpath es)) = map (render dirpath) (cdirs es)"
    by (rule 4(2) [OF 4(3) w(3)])
  have r: "render (os_path_join dirpath d) cs = render dirpath (d # cs)" for cs
    by (simp add: render_def j(1))
  have "file_paths_of (walk (os_path_join dirpath d) sub @ walk_dirs dirpath es)
          = file_paths_of (walk (os_path_join dirpath d) sub) @ file_paths_of (walk_dirs dirpath es)"
    by (simp add: file_paths_of_def)
  then show ?case
    using a b by (simp add: r comp_def del: walk.simps)
qed

lemma file_names_entries: "set (file_names es) \<subseteq> set (map entry_name es)"
  by (induction es rule: file_names.induct) auto

lemma file_names_distinct: "distinct (map entry_name es) \<Longrightarrow> distinct (file_names es)"
  using file_names_entries by (induction es rule: file_names.induct) auto

lemma cpaths_components:
  "list_all wf_node es \<Longrightarrow> cs \<in> set (cpaths es) \<Longrightarrow> cs \<noteq> [] \<and> list_all wf_name cs"
  "list_all wf_node es \<Longrightarrow> cs \<in> set (cdirs es) \<Longrightarrow>
     list_all wf_name cs \<and> (\<exists>d r. cs = d # r \<and> r \<noteq> [] \<and> d \<in> set (map entry_name es))"
proof (induction es and es arbitrary: cs and cs rule: cpaths_cdirs.induct)
  case (1 es)
  from 1(3) consider f where "f \<in> set (file_names es)" "cs = [f]" | "cs \<in> set (cdirs es)"
    by auto
  then show ?case
  proof cases
    case 1
    with file_names_wf [OF \<open>list_all wf_node es\<close>] show ?thesis
      by (auto simp: list_all_iff)
  next
    case 2
    from 1(1) [OF 1(2) 2] show ?thesis by auto
  qed
next
  case 2
  then show ?case by simp
next
  case (3 f es)
  from 3(1) [of cs] 3(2,3) show ?case by auto
next
  case (4 d sub es)
  from 4(3) have w: "wf_name d" "list_all wf_node sub" "list_all wf_node es" by auto
  from 4(4) consider r where "r \<in> set (cpaths sub)" "cs = d # r" | "cs \<in> set (cdirs es)"
    by auto
  then show ?case
  proof cases
    case 1
    from 4(1) [OF w(2) 1(1)] w(1) 1(2) show ?thesis by auto
  next
    case 2
    from 4(2) [OF w(3) 2] show ?thesis by auto
  qed
qed

lemma cpaths_distinct:
  "distinct (map entry_name es) \<Longrightarrow> list_all wf_node es \<Longrightarrow> distinct (cpaths es)"
  "distinct (map entry_name es) \<Longrightarrow> list_all wf_node es \<Longrightarrow> distinct (cdirs es)"
proof (induction es and es rule: cpaths_cdirs.induct)
  case (1 es)
  have a: "distinct (map (\<lambda>f. [f]) (file_names es))"
    using file_names_distinct [OF 1(2)] by (simp add: distinct_map inj_on_def)
  have b: "distinct (cdirs es)" by (rule 1(1) [OF 1(2,3)])
  have "set (map (\<lambda>f. [f]) (file_names es)) \<inter> set (cdirs es) = {}"
    using cpaths_components(2) [OF 1(3)] by fastforce
  with a b show ?case by simp
next
  case 2
  then show ?case by simp
next
  case (3 f es)
  then show ?case by simp
next
  case (4 d sub es)
  from 4(4) have w: "distinct (map entry_name sub)" "list_all wf_node sub" "list_all wf_node es"
    by auto
  from 4(3) have d: "d \<notin> set (map entry_name es)" "distinct (map entry_name es)"
    by auto
  have a: "distinct (map ((#) d) (cpaths sub))"
    using 4(1) [OF w(1,2)] by (simp add: distinct_map del: cpaths.simps)
  have b: "distinct (cdirs es)" by (rule 4(2) [OF d(2) w(3)])
  have "set (map ((#) d) (cpaths sub)) \<inter> set (cdirs es) = {}"
    using cpaths_components(2) [OF w(3)] d(1) by (fastforce simp del: cpaths.simps)
  with a b show ?case by (simp del: cpaths.simps)
qed

lemma name_split:
  assumes "CHR ''/'' \<notin> set c" "CHR ''/'' \<notin> set c'"
    "r = [] \<or> hd r = CHR ''/''" "r' = [] \<or> hd r' = CHR ''/''" "c @ r = c' @ r'"
  shows "c = c' \<and> r = r'"
proof -
  have t: "takeWhile (\<lambda>x. x \<noteq> CHR ''/'') (c @ r) = c" if "CHR ''/'' \<notin> set c" "r = [] \<or> hd r = CHR ''/''"
    for c r
    using that by (induction c) (auto simp: takeWhile_eq_Nil_iff)
  from t [OF assms(1,3)] t [OF assms(2,4)] assms(5) have "c = c'" by simp
  with assms(5) show ?thesis by simp
qed

lemma tail_shape: "concat (map ((@) ''/'') cs) = [] \<or> hd (concat (map ((@) ''/'') cs)) = CHR ''/''"
  by (cases cs) auto

lemma render_inj:
  "list_all wf_name cs \<Longrightarrow> list_all wf_name cs' \<Longrightarrow> render d cs = render d cs' \<Longrightarrow> cs = cs'"
proof (induction cs arbitrary: cs')
  case Nil
  then show ?case by (cases cs') (auto simp: render_def)
next
  case (Cons c cs)
  show ?case
  proof (cases cs')
    case Nil
    with Cons.prems show ?thesis by (auto simp: render_def)
  next
    case (Cons c' cs'')
    with Cons.prems have e: "c @ concat (map ((@) ''/'') cs) = c' @ concat (map ((@) ''/'') cs'')"
      by (simp add: render_def)
    from Cons Cons.prems have n: "wf_name c" "wf_name c'"
      and w3: "list_all wf_name cs" "list_all wf_name cs''"
      by simp_all
    from n have w: "CHR ''/'' \<notin> set c" "CHR ''/'' \<notin> set c'"
      by (simp_all add: wf_name_def)
    note w = w w3
    from name_split [OF w(1,2) tail_shape tail_shape e]
    have "c = c'" "render d cs = render d cs''"
      by (simp_all add: render_def)
    with Cons.IH [OF w(3,4)] Cons show ?thesis by simp
  qed
qed

lemma find_dart_files_distinct:
  assumes "wf_tree es"
  shows "distinct (find_dart_files es)"
proof -
  from assms have w: "distinct (map entry_name es)" "list_all wf_node es"
    by (auto simp: wf_tree_def)
  have g: "good_dir ''.''" by (simp add: good_dir_def)
  have "inj_on (render ''.'') (set (cpaths es))"
  proof (rule inj_onI)
    fix x y
    assume "x \<in> set (cpaths es)" "y \<in> set (cpaths es)" "render ''.'' x = render ''.'' y"
    with cpaths_components(1) [OF w(2)] show "x = y"
      by (blast intro: render_inj)
  qed
  with cpaths_distinct(1) [OF w] have "distinct (map (render ''.'') (cpaths es))"
    by (simp only: distinct_map)
  then have "distinct (map snd (file_paths_of (walk ''.'' es)))"
    by (simp only: walk_render(1) [OF g w(2)])
  then show ?thesis
    unfolding find_dart_files_pairs by (rule distinct_map_filter)
qed

section \<open>The engine, stage by stage\<close>

lemma engine_stages:
  "process_constant_in_content c k =
     (if sublist (''dev.'' @ k) c \<or> \<not> sublist k c then (c, False)
      else (bare_usage_rule (after_rule3 c k) k, bare_usage_rule (after_rule3 c k) k \<noteq> c))"
  by (simp add: process_constant_in_content_def after_rule3_def construction_rule_def
        bare_usage_rule_def Let_def)

section \<open>The matcher and the construction-site rule\<close>

lemma greedy_SomeD:
  "greedy f lo n = Some r \<Longrightarrow> \<exists>k. lo \<le> k \<and> k \<le> n \<and> f k = Some r"
proof (induction n)
  case 0
  then show ?case by (auto split: if_splits)
next
  case (Suc n)
  show ?case
  proof (cases "f (Suc n)")
    case None
    with Suc.prems have "greedy f lo n = Some r"
      by (auto split: if_splits)
    from Suc.IH [OF this] show ?thesis by (metis le_Suc_eq)
  next
    case (Some a)
    with Suc.prems have "\<not> Suc n < lo" "f (Suc n) = Some r"
      by (auto split: if_splits)
    then show ?thesis by (intro exI [of _ "Suc n"]) simp
  qed
qed

lemma moved_refl: "moved st st"
  unfolding moved_def by (rule exI [of _ 0]) simp

lemma moved_advance:
  assumes "moved (advance k st) st'"
  shows "moved st st'"
proof -
  let ?r = "ms_rest st"
  from assms obtain n where n: "n \<le> length (drop k ?r)"
    "ms_before st' = rev (take n (drop k ?r)) @ rev (take k ?r) @ ms_before st"
    "ms_rest st' = drop n (drop k ?r)"
    by (auto simp: moved_def advance_def)
  show ?thesis
  proof (cases "k \<le> length ?r")
    case True
    have t: "take (k + n) ?r = take k ?r @ take n (drop k ?r)"
      by (simp add: take_add)
    have d: "drop (k + n) ?r = drop n (drop k ?r)"
      by (simp add: add.commute)
    have "k + n \<le> length ?r" using n(1) True by simp
    with t d n(2,3) show ?thesis
      unfolding moved_def by (intro exI [of _ "k + n"]) simp
  next
    case False
    then have "n = 0" "take k ?r = ?r" "drop k ?r = []" using n(1) by simp_all
    with n(2,3) show ?thesis
      unfolding moved_def by (intro exI [of _ "length ?r"]) simp
  qed
qed

lemma moved_groups:
  "moved (open_group st) st' \<Longrightarrow> moved st st'"
  "moved (close_group st) st' \<Longrightarrow> moved st st'"
  by (auto simp: moved_def open_group_def close_group_def split: list.splits)

lemma rm_moved: "rm p st = Some st' \<Longrightarrow> moved st st'"
proof (induction p arbitrary: st)
  case Nil
  then show ?case by (simp add: moved_refl)
next
  case (Cons it its)
  show ?case
  proof (cases it)
    case WordB
    with Cons show ?thesis by (auto split: if_splits)
  next
    case (Lit s)
    with Cons show ?thesis by (auto split: if_splits intro: moved_advance)
  next
    case (Plus cs)
    with Cons.prems obtain k where "rm its (advance k st) = Some st'"
      by (auto dest: greedy_SomeD)
    with Cons.IH show ?thesis by (blast intro: moved_advance)
  next
    case (Star cs)
    with Cons.prems obtain k where "rm its (advance k st) = Some st'"
      by (auto dest: greedy_SomeD)
    with Cons.IH show ?thesis by (blast intro: moved_advance)
  next
    case GOpen
    with Cons show ?thesis by (auto intro: moved_groups)
  next
    case GClose
    with Cons show ?thesis by (auto intro: moved_groups)
  next
    case (NotAhead cs)
    with Cons show ?thesis by (auto split: list.splits if_splits)
  qed
qed

lemma match_at_span:
  assumes "match_at p pre rest = Some m"
  shows "m_start m = length pre \<and> m_start m \<le> m_end m \<and> m_end m \<le> length pre + length rest
         \<and> m_text m = take (m_len m) rest"
proof -
  from assms obtain st where st:
    "rm p \<lparr>ms_before = pre, ms_rest = rest, ms_open = [], ms_groups = []\<rparr> = Some st"
    and m: "m = \<lparr>m_start = length pre, m_end = length (ms_before st),
                m_text = rev (take (length (ms_before st) - length pre) (ms_before st)),
                m_groups = ms_groups st\<rparr>"
    by (auto simp: match_at_def split: option.splits)
  from rm_moved [OF st] obtain n where n: "n \<le> length rest"
    "ms_before st = rev (take n rest) @ pre"
    by (auto simp: moved_def)
  then show ?thesis by (simp add: m m_len_def)
qed


lemma within_mono: "within pos len ms \<Longrightarrow> pos' \<le> pos \<Longrightarrow> within pos' len ms"
  by (cases ms) auto

lemma find_scan_within:
  "skip \<le> length s \<Longrightarrow> within (length pre + skip) (length pre + length s) (find_scan p skip pre s)"
proof (induction p skip pre s rule: find_scan.induct)
  case (1 p skip pre)
  then show ?case
    by (auto split: option.splits dest: match_at_span)
next
  case (2 p k pre c cs)
  then show ?case by simp
next
  case (3 p pre c cs)
  show ?case
  proof (cases "match_at p pre (c # cs)")
    case None
    with 3(1) have "within (length (c # pre) + 0) (length (c # pre) + length cs)
                      (find_scan p 0 (c # pre) cs)"
      by simp
    then have "within (length pre + 0) (length pre + length (c # cs)) (find_scan p 0 (c # pre) cs)"
      by (auto intro: within_mono)
    with None show ?thesis by simp
  next
    case (Some m)
    from match_at_span [OF Some]
    have sp: "m_start m = length pre" "m_start m \<le> m_end m" "m_end m \<le> length pre + length (c # cs)"
      by auto
    then have "m_len m - 1 \<le> length cs"
      by (simp add: m_len_def)
    from 3(2) [OF Some this]
    have "within (length (c # pre) + (m_len m - 1)) (length (c # pre) + length cs)
            (find_scan p (m_len m - 1) (c # pre) cs)" .
    moreover have "m_end m \<le> length (c # pre) + (m_len m - 1)"
      using sp by (simp add: m_len_def)
    ultimately have "within (m_end m) (length pre + length (c # cs))
            (find_scan p (m_len m - 1) (c # pre) cs)"
      by (auto intro: within_mono)
    with Some sp show ?thesis by simp
  qed
qed

lemma re_finditer_within: "within 0 (length c) (re_finditer p c)"
  using find_scan_within [of 0 c "[]" p] by (simp add: re_finditer_def)

lemma find_scan_text:
  "m \<in> set (find_scan p skip pre s) \<Longrightarrow>
     m_text m = take (m_len m) (drop (m_start m) (rev pre @ s))"
proof (induction p skip pre s rule: find_scan.induct)
  case (1 p skip pre)
  then have "match_at p pre [] = Some m"
    by (auto split: option.splits if_splits)
  from match_at_span [OF this] show ?case by simp
next
  case (2 p k pre c cs)
  then show ?case by simp
next
  case (3 p pre c cs)
  show ?case
  proof (cases "match_at p pre (c # cs)")
    case None
    with 3 show ?thesis by simp
  next
    case (Some m')
    show ?thesis
    proof (cases "m = m'")
      case True
      with match_at_span [OF Some] show ?thesis by simp
    next
      case False
      with 3(2) [OF Some] 3(3) Some show ?thesis by simp
    qed
  qed
qed

lemma re_finditer_text:
  "m \<in> set (re_finditer p c) \<Longrightarrow> m_text m = take (m_len m) (drop (m_start m) c)"
  using find_scan_text [of m p 0 "[]" c] by (simp add: re_finditer_def)

lemma fold_splice_rebuild:
  "within pos (length c) ms \<Longrightarrow> fold splice (rev ms) c = take pos c @ rebuild ms c pos"
proof (induction ms arbitrary: pos)
  case Nil
  then show ?case by simp
next
  case (Cons m ms)
  then have b: "pos \<le> m_start m" "m_start m \<le> m_end m" "m_end m \<le> length c"
    and w: "within (m_end m) (length c) ms"
    by auto
  let ?x = "fold splice (rev ms) c"
  have x: "?x = take (m_end m) c @ rebuild ms c (m_end m)"
    by (rule Cons.IH [OF w])
  have t: "take (m_start m) ?x = take (m_start m) c"
    using b by (simp add: x min_def)
  have d: "drop (m_end m) ?x = rebuild ms c (m_end m)"
    using b by (simp add: x)
  have p: "take (m_start m) c = take pos c @ take (m_start m - pos) (drop pos c)"
    using b(1) by (metis le_add_diff_inverse take_add)
  have "fold splice (rev (m # ms)) c = splice m ?x"
    by simp
  also have "\<dots> = take (m_start m) ?x @ site_replacement m @ drop (m_end m) ?x"
    by (rule splice_def)
  also have "\<dots> = take (m_start m) c @ site_replacement m @ rebuild ms c (m_end m)"
    by (simp only: t d)
  also have "\<dots> = take pos c @ rebuild (m # ms) c pos"
    by (simp only: p rebuild.simps append_assoc)
  finally show ?case .
qed

lemma construction_rule_rebuild:
  "construction_rule c k = rebuild (re_finditer (const_constructor_pattern k) c) c 0"
  using fold_splice_rebuild [OF re_finditer_within [of c "const_constructor_pattern k"]]
  by (simp add: construction_rule_def)

lemma take_run:
  assumes "n \<le> length (takeWhile P xs)"
  shows "list_all P (take n xs)"
proof -
  have "take n xs = take n (takeWhile P xs)"
    using assms by (metis takeWhile_dropWhile_id take_append diff_is_0_eq take_0 append_Nil2)
  moreover have "list_all P (takeWhile P xs)"
    by (simp add: list_all_iff) (meson set_takeWhileD)
  ultimately show ?thesis
    by (metis append_take_drop_id list_all_append)
qed

lemma rm_WordB_step:
  "rm (WordB # its) st = Some st' \<Longrightarrow> at_boundary st \<and> rm its st = Some st'"
  by (auto split: if_splits)

lemma rm_Lit_step:
  assumes "rm (Lit s # its) \<lparr>ms_before = b, ms_rest = r, ms_open = os, ms_groups = g\<rparr> = Some st'"
  shows "\<exists>r'. r = s @ r'
     \<and> rm its \<lparr>ms_before = rev s @ b, ms_rest = r', ms_open = os, ms_groups = g\<rparr> = Some st'"
proof -
  from assms have p: "prefix s r"
    and e: "rm its (advance (length s) \<lparr>ms_before = b, ms_rest = r, ms_open = os, ms_groups = g\<rparr>) = Some st'"
    by (auto split: if_splits)
  from p obtain r' where "r = s @ r'" by (auto simp: prefix_def)
  with e show ?thesis by (simp add: advance_def)
qed

lemma rm_rep_step:
  assumes "greedy (\<lambda>k. rm its (advance k \<lparr>ms_before = b, ms_rest = r, ms_open = os, ms_groups = g\<rparr>)) lo
             (run_length cs \<lparr>ms_before = b, ms_rest = r, ms_open = os, ms_groups = g\<rparr>) = Some st'"
  shows "\<exists>xs r'. r = xs @ r' \<and> lo \<le> length xs \<and> list_all (in_cset cs) xs
     \<and> rm its \<lparr>ms_before = rev xs @ b, ms_rest = r', ms_open = os, ms_groups = g\<rparr> = Some st'"
proof -
  from greedy_SomeD [OF assms] obtain k where k: "lo \<le> k"
    "k \<le> length (takeWhile (in_cset cs) r)"
    "rm its (advance k \<lparr>ms_before = b, ms_rest = r, ms_open = os, ms_groups = g\<rparr>) = Some st'"
    by (auto simp: run_length_def)
  have "k \<le> length r"
    using k(2) by (meson le_trans length_takeWhile_le)
  then have "length (take k r) = k" by simp
  moreover have "list_all (in_cset cs) (take k r)"
    by (rule take_run [OF k(2)])
  moreover have "r = take k r @ drop k r" by simp
  moreover have "rm its \<lparr>ms_before = rev (take k r) @ b, ms_rest = drop k r, ms_open = os, ms_groups = g\<rparr> = Some st'"
    using k(3) by (simp add: advance_def)
  ultimately show ?thesis using k(1) by metis
qed

lemma rm_Plus_step:
  assumes "rm (Plus cs # its) \<lparr>ms_before = b, ms_rest = r, ms_open = os, ms_groups = g\<rparr> = Some st'"
  shows "\<exists>xs r'. r = xs @ r' \<and> xs \<noteq> [] \<and> list_all (in_cset cs) xs
     \<and> rm its \<lparr>ms_before = rev xs @ b, ms_rest = r', ms_open = os, ms_groups = g\<rparr> = Some st'"
proof -
  from assms rm_rep_step [of its b r os g 1 cs st']
  obtain xs r' where "r = xs @ r'" "1 \<le> length xs" "list_all (in_cset cs) xs"
    "rm its \<lparr>ms_before = rev xs @ b, ms_rest = r', ms_open = os, ms_groups = g\<rparr> = Some st'"
    by auto
  moreover then have "xs \<noteq> []" by auto
  ultimately show ?thesis by blast
qed

lemma rm_Star_step:
  assumes "rm (Star cs # its) \<lparr>ms_before = b, ms_rest = r, ms_open = os, ms_groups = g\<rparr> = Some st'"
  shows "\<exists>xs r'. r = xs @ r' \<and> list_all (in_cset cs) xs
     \<and> rm its \<lparr>ms_before = rev xs @ b, ms_rest = r', ms_open = os, ms_groups = g\<rparr> = Some st'"
  using assms rm_rep_step [of its b r os g 0 cs st'] by auto

lemma rm_GOpen_step:
  "rm (GOpen # its) \<lparr>ms_before = b, ms_rest = r, ms_open = os, ms_groups = g\<rparr> = Some st' \<Longrightarrow>
   rm its \<lparr>ms_before = b, ms_rest = r, ms_open = length b # os, ms_groups = g\<rparr> = Some st'"
  by (simp add: open_group_def)

lemma rm_GClose_step:
  "rm (GClose # its) \<lparr>ms_before = xs @ b, ms_rest = r, ms_open = length b # os, ms_groups = g\<rparr> = Some st' \<Longrightarrow>
   rm its \<lparr>ms_before = xs @ b, ms_rest = r, ms_open = os, ms_groups = g @ [rev xs]\<rparr> = Some st'"
  by (simp add: close_group_def)

lemma not_paren: "list_all (in_cset (CNot (CChar c))) xs \<longleftrightarrow> c \<notin> set xs"
  by (induction xs) auto

lemma rm_const_constructor_pattern:
  assumes "rm (const_constructor_pattern k)
             \<lparr>ms_before = pre, ms_rest = rest, ms_open = [], ms_groups = []\<rparr> = Some st'"
  shows "\<exists>s1 g s3 a1 a2 r.
           rest = ''const'' @ s1 @ g @ s3 @ ''('' @ a1 @ k @ a2 @ '')'' @ r
         \<and> s1 \<noteq> [] \<and> list_all is_space s1 \<and> g \<noteq> [] \<and> list_all is_word g \<and> list_all is_space s3
         \<and> CHR '')'' \<notin> set a1 \<and> CHR '')'' \<notin> set a2
         \<and> ms_groups st' = [g]
         \<and> ms_before st' = rev (''const'' @ s1 @ g @ s3 @ ''('' @ a1 @ k @ a2 @ '')'') @ pre"
proof -
  note a = assms [unfolded const_constructor_pattern_def]
  from rm_WordB_step [OF a] have a1:
    "rm [Lit ''const'', Plus CSpace, GOpen, Plus CWord, GClose, Star CSpace, Lit ''('',
      Star (CNot (CChar CHR '')'')), Lit k, Star (CNot (CChar CHR '')'')), Lit '')'']
      \<lparr>ms_before = pre, ms_rest = rest, ms_open = [], ms_groups = []\<rparr> = Some st'"
    by simp
  from rm_Lit_step [OF a1] obtain r1 where r1: "rest = ''const'' @ r1"
    and a2: "rm [Plus CSpace, GOpen, Plus CWord, GClose, Star CSpace, Lit ''('',
      Star (CNot (CChar CHR '')'')), Lit k, Star (CNot (CChar CHR '')'')), Lit '')'']
      \<lparr>ms_before = rev ''const'' @ pre, ms_rest = r1, ms_open = [], ms_groups = []\<rparr> = Some st'"
    by blast
  from rm_Plus_step [OF a2] obtain s1 r2 where r2: "r1 = s1 @ r2" "s1 \<noteq> []" "list_all is_space s1"
    and a3: "rm [GOpen, Plus CWord, GClose, Star CSpace, Lit ''('',
      Star (CNot (CChar CHR '')'')), Lit k, Star (CNot (CChar CHR '')'')), Lit '')'']
      \<lparr>ms_before = rev s1 @ rev ''const'' @ pre, ms_rest = r2, ms_open = [], ms_groups = []\<rparr> = Some st'"
    by (auto simp: list_all_iff)
  let ?b = "rev s1 @ rev ''const'' @ pre"
  from rm_GOpen_step [OF a3] have a4: "rm [Plus CWord, GClose, Star CSpace, Lit ''('',
      Star (CNot (CChar CHR '')'')), Lit k, Star (CNot (CChar CHR '')'')), Lit '')'']
      \<lparr>ms_before = ?b, ms_rest = r2, ms_open = [length ?b], ms_groups = []\<rparr> = Some st'" .
  from rm_Plus_step [OF a4] obtain g r3 where r3: "r2 = g @ r3" "g \<noteq> []" "list_all is_word g"
    and a5: "rm [GClose, Star CSpace, Lit ''('',
      Star (CNot (CChar CHR '')'')), Lit k, Star (CNot (CChar CHR '')'')), Lit '')'']
      \<lparr>ms_before = rev g @ ?b, ms_rest = r3, ms_open = [length ?b], ms_groups = []\<rparr> = Some st'"
    by (auto simp: list_all_iff)
  from rm_GClose_step [OF a5] have a6: "rm [Star CSpace, Lit ''('',
      Star (CNot (CChar CHR '')'')), Lit k, Star (CNot (CChar CHR '')'')), Lit '')'']
      \<lparr>ms_before = rev g @ ?b, ms_rest = r3, ms_open = [], ms_groups = [g]\<rparr> = Some st'"
    by simp
  from rm_Star_step [OF a6] obtain s3 r4 where r4: "r3 = s3 @ r4" "list_all is_space s3"
    and a7: "rm [Lit ''('',
      Star (CNot (CChar CHR '')'')), Lit k, Star (CNot (CChar CHR '')'')), Lit '')'']
      \<lparr>ms_before = rev s3 @ rev g @ ?b, ms_rest = r4, ms_open = [], ms_groups = [g]\<rparr> = Some st'"
    by (auto simp: list_all_iff)
  from rm_Lit_step [OF a7] obtain r5 where r5: "r4 = ''('' @ r5"
    and a8: "rm [Star (CNot (CChar CHR '')'')), Lit k, Star (CNot (CChar CHR '')'')), Lit '')'']
      \<lparr>ms_before = rev ''('' @ rev s3 @ rev g @ ?b, ms_rest = r5, ms_open = [], ms_groups = [g]\<rparr> = Some st'"
    by blast
  from rm_Star_step [OF a8] obtain a1 r6 where r6: "r5 = a1 @ r6" "CHR '')'' \<notin> set a1"
    and a9: "rm [Lit k, Star (CNot (CChar CHR '')'')), Lit '')'']
      \<lparr>ms_before = rev a1 @ rev ''('' @ rev s3 @ rev g @ ?b, ms_rest = r6, ms_open = [], ms_groups = [g]\<rparr> = Some st'"
    by (auto simp: not_paren)
  from rm_Lit_step [OF a9] obtain r7 where r7: "r6 = k @ r7"
    and a10: "rm [Star (CNot (CChar CHR '')'')), Lit '')'']
      \<lparr>ms_before = rev k @ rev a1 @ rev ''('' @ rev s3 @ rev g @ ?b, ms_rest = r7, ms_open = [], ms_groups = [g]\<rparr> = Some st'"
    by blast
  from rm_Star_step [OF a10] obtain a2 r8 where r8: "r7 = a2 @ r8" "CHR '')'' \<notin> set a2"
    and a11: "rm [Lit '')'']
      \<lparr>ms_before = rev a2 @ rev k @ rev a1 @ rev ''('' @ rev s3 @ rev g @ ?b, ms_rest = r8, ms_open = [], ms_groups = [g]\<rparr> = Some st'"
    by (auto simp: not_paren)
  from rm_Lit_step [OF a11] obtain r9 where r9: "r8 = '')'' @ r9"
    and a12: "rm []
      \<lparr>ms_before = rev '')'' @ rev a2 @ rev k @ rev a1 @ rev ''('' @ rev s3 @ rev g @ ?b, ms_rest = r9, ms_open = [], ms_groups = [g]\<rparr> = Some st'"
    by blast
  from a12 have st': "st' = \<lparr>ms_before = rev '')'' @ rev a2 @ rev k @ rev a1 @ rev ''('' @ rev s3 @ rev g @ ?b, ms_rest = r9, ms_open = [], ms_groups = [g]\<rparr>"
    by simp
  have "rest = ''const'' @ s1 @ g @ s3 @ ''('' @ a1 @ k @ a2 @ '')'' @ r9"
    by (simp add: r1 r2 r3 r4 r5 r6 r7 r8 r9)
  moreover have "ms_groups st' = [g]" by (simp add: st')
  moreover have "ms_before st' = rev (''const'' @ s1 @ g @ s3 @ ''('' @ a1 @ k @ a2 @ '')'') @ pre"
    by (simp add: st')
  ultimately show ?thesis
    using r2(2,3) r3(2,3) r4(2) r6(2) r8(2) by blast
qed

lemma find_scan_match_at:
  "m \<in> set (find_scan p skip pre s) \<Longrightarrow> \<exists>pre' rest'. match_at p pre' rest' = Some m"
proof (induction p skip pre s rule: find_scan.induct)
  case (1 p skip pre)
  then have "match_at p pre [] = Some m"
    by (auto split: option.splits if_splits)
  then show ?case by blast
next
  case (2 p k pre c cs)
  then show ?case by simp
next
  case (3 p pre c cs)
  show ?case
  proof (cases "match_at p pre (c # cs)")
    case None
    with 3 show ?thesis by simp
  next
    case (Some m')
    show ?thesis
    proof (cases "m = m'")
      case True
      with Some show ?thesis by blast
    next
      case False
      with 3(2) [OF Some] 3(3) Some show ?thesis by simp
    qed
  qed
qed

lemma replace_first_prefix: "old \<noteq> [] \<Longrightarrow> replace_first old new (old @ r) = new @ r"
  by (cases old) simp_all

lemma text_of_cursor: "rev (take (length (rev t @ pre) - length pre) (rev t @ pre)) = t"
  by simp

lemma construction_site_match:
  assumes "m \<in> set (re_finditer (const_constructor_pattern k) c)"
  shows "\<exists>s1 g s3 a1 a2.
           m_text m = ''const'' @ s1 @ g @ s3 @ ''('' @ a1 @ k @ a2 @ '')''
         \<and> s1 \<noteq> [] \<and> list_all is_space s1 \<and> g \<noteq> [] \<and> list_all is_word g \<and> list_all is_space s3
         \<and> CHR '')'' \<notin> set a1 \<and> CHR '')'' \<notin> set a2
         \<and> group m 1 = g
         \<and> (s1 = '' '' \<longrightarrow> site_replacement m = g @ s3 @ ''('' @ a1 @ k @ a2 @ '')'')"
proof -
  from assms find_scan_match_at obtain pre rest
    where "match_at (const_constructor_pattern k) pre rest = Some m"
    unfolding re_finditer_def by blast
  then obtain st where st:
    "rm (const_constructor_pattern k) \<lparr>ms_before = pre, ms_rest = rest, ms_open = [], ms_groups = []\<rparr> = Some st"
    and m: "m = \<lparr>m_start = length pre, m_end = length (ms_before st),
                m_text = rev (take (length (ms_before st) - length pre) (ms_before st)),
                m_groups = ms_groups st\<rparr>"
    by (auto simp: match_at_def split: option.splits)
  from rm_const_constructor_pattern [OF st] obtain s1 g s3 a1 a2 where h:
    "s1 \<noteq> []" "list_all is_space s1" "g \<noteq> []" "list_all is_word g" "list_all is_space s3"
    "CHR '')'' \<notin> set a1" "CHR '')'' \<notin> set a2" "ms_groups st = [g]"
    "ms_before st = rev (''const'' @ s1 @ g @ s3 @ ''('' @ a1 @ k @ a2 @ '')'') @ pre"
    by blast
  have "m_text m = rev (take (length (ms_before st) - length pre) (ms_before st))"
    unfolding m by simp
  then have t: "m_text m = ''const'' @ s1 @ g @ s3 @ ''('' @ a1 @ k @ a2 @ '')''"
    by (simp only: h(9) text_of_cursor)
  have g: "group m 1 = g"
    unfolding m by (simp add: group_def h(8))
  have "site_replacement m = g @ s3 @ ''('' @ a1 @ k @ a2 @ '')''" if "s1 = '' ''"
  proof -
    have "m_text m = (''const '' @ g) @ s3 @ ''('' @ a1 @ k @ a2 @ '')''"
      using t that by simp
    then have "replace_first (''const '' @ g) g (m_text m) = g @ s3 @ ''('' @ a1 @ k @ a2 @ '')''"
      by (simp only: replace_first_prefix [of "''const '' @ g"]) simp
    moreover have "group m 0 = m_text m"
      by (simp add: group_def)
    ultimately show ?thesis
      by (simp only: site_replacement_def g)
  qed
  with t g h show ?thesis by blast
qed

lemma cone_full_pass:
  "full_pass ''const Cone(kDirectionConeHalfAngle, color: kDirectionConeColor)''
     = ''Cone(dev.kDirectionConeHalfAngle, color: dev.kDirectionConeColor)''"
  by code_simp

lemma example_site:
  "re_finditer (const_constructor_pattern ''kClientName'') ''x = const Text(kClientName);''
     = [\<lparr>m_start = 4, m_end = 27, m_text = ''const Text(kClientName)'', m_groups = [''Text'']\<rparr>]"
  by code_simp




subsection \<open>Every construction site of the shape is matched\<close>


lemma greedy_first: "lo \<le> n \<Longrightarrow> f n = Some r \<Longrightarrow> greedy f lo n = Some r"
  by (cases n) auto

lemma greedy_same:
  assumes "\<forall>j. lo \<le> j \<and> j \<le> n \<longrightarrow> f j = None \<or> f j = Some r"
    "\<exists>j. lo \<le> j \<and> j \<le> n \<and> f j = Some r"
  shows "greedy f lo n = Some r"
  using assms
proof (induction n)
  case 0
  then show ?case by auto
next
  case (Suc n)
  from Suc.prems(2) obtain j where j: "lo \<le> j" "j \<le> Suc n" "f j = Some r" by blast
  then have lo: "\<not> Suc n < lo" by simp
  from Suc.prems(1) lo have c: "f (Suc n) = None \<or> f (Suc n) = Some r" by simp
  show ?case
  proof (cases "f (Suc n)")
    case (Some a)
    with c lo show ?thesis by simp
  next
    case None
    with j have "j \<le> n" by (cases "j = Suc n") auto
    with j have e: "\<exists>j. lo \<le> j \<and> j \<le> n \<and> f j = Some r" by blast
    from Suc.prems(1) have a: "\<forall>j. lo \<le> j \<and> j \<le> n \<longrightarrow> f j = None \<or> f j = Some r" by simp
    from Suc.IH [OF a e] None lo show ?thesis by simp
  qed
qed

lemma run_length_exact:
  assumes "list_all (in_cset cs) xs" "r = [] \<or> \<not> in_cset cs (hd r)"
  shows "run_length cs \<lparr>ms_before = b, ms_rest = xs @ r, ms_open = os, ms_groups = g\<rparr> = length xs"
proof -
  have "takeWhile (in_cset cs) (xs @ r) = xs"
    using assms by (cases r) (auto simp: list_all_iff)
  then show ?thesis by (simp add: run_length_def)
qed

lemma advance_over:
  "advance (length xs) \<lparr>ms_before = b, ms_rest = xs @ r, ms_open = os, ms_groups = g\<rparr>
     = \<lparr>ms_before = rev xs @ b, ms_rest = r, ms_open = os, ms_groups = g\<rparr>"
  by (simp add: advance_def)

lemma rm_Lit_fwd:
  "rm (Lit s # its) \<lparr>ms_before = b, ms_rest = s @ r, ms_open = os, ms_groups = g\<rparr>
     = rm its \<lparr>ms_before = rev s @ b, ms_rest = r, ms_open = os, ms_groups = g\<rparr>"
  by (simp add: advance_over)

lemma rm_Plus_fwd:
  assumes "list_all (in_cset cs) xs" "xs \<noteq> []" "r = [] \<or> \<not> in_cset cs (hd r)"
    "rm its \<lparr>ms_before = rev xs @ b, ms_rest = r, ms_open = os, ms_groups = g\<rparr> = Some st'"
  shows "rm (Plus cs # its) \<lparr>ms_before = b, ms_rest = xs @ r, ms_open = os, ms_groups = g\<rparr> = Some st'"
proof -
  have "1 \<le> length xs" using assms(2) by (cases xs) auto
  then show ?thesis
    using assms(4)
    by (simp add: run_length_exact [OF assms(1,3)] del: greedy.simps)
       (rule greedy_first, simp_all add: advance_over)
qed

lemma rm_Star_fwd:
  assumes "list_all (in_cset cs) xs" "r = [] \<or> \<not> in_cset cs (hd r)"
    "rm its \<lparr>ms_before = rev xs @ b, ms_rest = r, ms_open = os, ms_groups = g\<rparr> = Some st'"
  shows "rm (Star cs # its) \<lparr>ms_before = b, ms_rest = xs @ r, ms_open = os, ms_groups = g\<rparr> = Some st'"
  using assms(3)
  by (simp add: run_length_exact [OF assms(1,2)] del: greedy.simps)
     (rule greedy_first, simp_all add: advance_over)

lemma rm_Star_same:
  assumes "list_all (in_cset cs) xs" "r = [] \<or> \<not> in_cset cs (hd r)"
    "\<forall>j\<le>length xs. rm its \<lparr>ms_before = rev (take j xs) @ b, ms_rest = drop j xs @ r, ms_open = os, ms_groups = g\<rparr> = None
         \<or> rm its \<lparr>ms_before = rev (take j xs) @ b, ms_rest = drop j xs @ r, ms_open = os, ms_groups = g\<rparr> = Some st'"
    "\<exists>j\<le>length xs. rm its \<lparr>ms_before = rev (take j xs) @ b, ms_rest = drop j xs @ r, ms_open = os, ms_groups = g\<rparr> = Some st'"
  shows "rm (Star cs # its) \<lparr>ms_before = b, ms_rest = xs @ r, ms_open = os, ms_groups = g\<rparr> = Some st'"
proof -
  have a: "advance j \<lparr>ms_before = b, ms_rest = xs @ r, ms_open = os, ms_groups = g\<rparr>
          = \<lparr>ms_before = rev (take j xs) @ b, ms_rest = drop j xs @ r, ms_open = os, ms_groups = g\<rparr>"
    if "j \<le> length xs" for j
    using that by (simp add: advance_def)
  show ?thesis
    using assms(3,4)
    by (simp add: run_length_exact [OF assms(1,2)] del: greedy.simps)
       (rule greedy_same, auto simp: a)
qed


lemma word_not_space: "is_word c \<Longrightarrow> \<not> is_space c"
  by (auto simp: is_word_def is_space_def Let_def)

lemma paren_class: "\<not> is_word CHR ''(''" "\<not> is_space CHR ''(''" "is_word CHR ''c''"
  by (simp_all add: is_word_def is_space_def)

lemma prefix_no_char:
  assumes "prefix k (xs @ c # ys)" "c \<notin> set k"
  shows "prefix k xs"
proof -
  from assms(1) consider "prefix k xs" | us where "k = xs @ us" "prefix us (c # ys)"
    by (auto simp: prefix_append)
  then show ?thesis
  proof cases
    case 2
    with assms(2) have "us = []" by (cases us) auto
    with 2 show ?thesis by simp
  qed
qed

lemma rm_GOpen_eq:
  "rm (GOpen # its) \<lparr>ms_before = b, ms_rest = r, ms_open = os, ms_groups = g\<rparr>
     = rm its \<lparr>ms_before = b, ms_rest = r, ms_open = length b # os, ms_groups = g\<rparr>"
  by (simp add: open_group_def)

lemma rm_GClose_eq:
  "rm (GClose # its) \<lparr>ms_before = rev xs @ b, ms_rest = r, ms_open = length b # os, ms_groups = g\<rparr>
     = rm its \<lparr>ms_before = rev xs @ b, ms_rest = r, ms_open = os, ms_groups = g @ [xs]\<rparr>"
  by (simp add: close_group_def)

lemma rm_argument_list:
  assumes a: "CHR '')'' \<notin> set a" and k: "sublist k a" "CHR '')'' \<notin> set k"
  shows "rm [Star (CNot (CChar CHR '')'')), Lit k, Star (CNot (CChar CHR '')'')), Lit '')'']
           \<lparr>ms_before = b, ms_rest = a @ '')'' @ post, ms_open = os, ms_groups = g\<rparr>
         = Some \<lparr>ms_before = rev '')'' @ rev a @ b, ms_rest = post, ms_open = os, ms_groups = g\<rparr>"
proof (rule rm_Star_same)
  let ?np = "CNot (CChar CHR '')'')"
  let ?final = "\<lparr>ms_before = rev '')'' @ rev a @ b, ms_rest = post, ms_open = os, ms_groups = g\<rparr>"
  let ?F = "\<lambda>j. rm [Lit k, Star ?np, Lit '')'']
              \<lparr>ms_before = rev (take j a) @ b, ms_rest = drop j a @ '')'' @ post, ms_open = os, ms_groups = g\<rparr>"
  show "list_all (in_cset ?np) a" using a by (simp add: not_paren)
  show "'')'' @ post = [] \<or> \<not> in_cset ?np (hd ('')'' @ post))" by simp
  have hit: "?F j = Some ?final" if "drop j a = k @ a2" for j a2
  proof -
    have n: "list_all (in_cset ?np) a2"
      using a that by (metis not_paren in_set_dropD Un_iff set_append)
    have e: "rev a2 @ rev k @ rev (take j a) = rev a"
      by (metis append_take_drop_id rev_append that append_assoc)
    have "?F j = rm [Star ?np, Lit '')'']
              \<lparr>ms_before = rev k @ rev (take j a) @ b, ms_rest = a2 @ '')'' @ post, ms_open = os, ms_groups = g\<rparr>"
      using rm_Lit_fwd [of k "[Star ?np, Lit '')'']" "rev (take j a) @ b" "a2 @ '')'' @ post" os g]
      by (simp add: that)
    also have "\<dots> = Some \<lparr>ms_before = rev '')'' @ rev a2 @ rev k @ rev (take j a) @ b, ms_rest = post,
                   ms_open = os, ms_groups = g\<rparr>"
      by (rule rm_Star_fwd [OF n]) (simp_all add: rm_Lit_fwd [of "'')''" "[]", simplified])
    finally show ?thesis
      using e by (metis append_assoc)
  qed
  show "\<forall>j\<le>length a. ?F j = None \<or> ?F j = Some ?final"
  proof (intro allI impI)
    fix j assume "j \<le> length a"
    show "?F j = None \<or> ?F j = Some ?final"
    proof (cases "prefix k (drop j a @ '')'' @ post)")
      case False
      then show ?thesis by simp
    next
      case True
      then have "prefix k (drop j a)"
        using prefix_no_char [of k "drop j a" "CHR '')''" post] k(2) by simp
      then obtain a2 where "drop j a = k @ a2" by (auto simp: prefix_def)
      from hit [OF this] show ?thesis by simp
    qed
  qed
  from k(1) obtain a1 a2 where s: "a = a1 @ k @ a2" by (auto simp: sublist_def)
  then have "drop (length a1) a = k @ a2" by simp
  from hit [OF this] s show "\<exists>j\<le>length a. ?F j = Some ?final"
    by (intro exI [of _ "length a1"]) simp
qed


lemma rm_construction_site:
  assumes pre: "\<not> word_ctx pre"
    and s1: "s1 \<noteq> []" "list_all is_space s1"
    and g: "g \<noteq> []" "list_all is_word g"
    and s3: "list_all is_space s3"
    and a: "CHR '')'' \<notin> set a"
    and k: "sublist k a" "CHR '')'' \<notin> set k"
  shows "rm (const_constructor_pattern k)
           \<lparr>ms_before = pre, ms_rest = ''const'' @ s1 @ g @ s3 @ ''('' @ a @ '')'' @ post,
            ms_open = [], ms_groups = []\<rparr>
         = Some \<lparr>ms_before = rev (''const'' @ s1 @ g @ s3 @ ''('' @ a @ '')'') @ pre,
                 ms_rest = post, ms_open = [], ms_groups = [g]\<rparr>"
proof -
  let ?np = "CNot (CChar CHR '')'')"
  let ?b1 = "rev ''const'' @ pre"
  let ?b2 = "rev s1 @ ?b1"
  let ?b3 = "rev g @ ?b2"
  let ?b4 = "rev s3 @ ?b3"
  let ?b5 = "rev ''('' @ ?b4"
  let ?final = "\<lparr>ms_before = rev '')'' @ rev a @ ?b5, ms_rest = post, ms_open = [], ms_groups = [g]\<rparr>"
  have hg: "is_word (hd g)" using g by (cases g) auto
  have t5: "rm [Star ?np, Lit k, Star ?np, Lit '')'']
              \<lparr>ms_before = ?b5, ms_rest = a @ '')'' @ post, ms_open = [], ms_groups = [g]\<rparr> = Some ?final"
    by (rule rm_argument_list [OF a k])
  have t4: "rm [Lit ''('', Star ?np, Lit k, Star ?np, Lit '')'']
              \<lparr>ms_before = ?b4, ms_rest = ''('' @ a @ '')'' @ post, ms_open = [], ms_groups = [g]\<rparr> = Some ?final"
    by (simp only: rm_Lit_fwd t5)
  have t3: "rm [Star CSpace, Lit ''('', Star ?np, Lit k, Star ?np, Lit '')'']
              \<lparr>ms_before = ?b3, ms_rest = s3 @ ''('' @ a @ '')'' @ post, ms_open = [], ms_groups = [g]\<rparr> = Some ?final"
  proof (rule rm_Star_fwd [OF _ _ t4])
    show "list_all (in_cset CSpace) s3" using s3 by (simp add: list_all_iff)
    show "''('' @ a @ '')'' @ post = [] \<or> \<not> in_cset CSpace (hd (''('' @ a @ '')'' @ post))"
      by (simp add: paren_class)
  qed
  have c: "rm [GClose, Star CSpace, Lit ''('', Star ?np, Lit k, Star ?np, Lit '')'']
              \<lparr>ms_before = ?b3, ms_rest = s3 @ ''('' @ a @ '')'' @ post, ms_open = [length ?b2], ms_groups = []\<rparr> = Some ?final"
    using rm_GClose_eq [of _ g ?b2 _ "[]" "[]"] t3 by simp
  have nw: "s3 @ ''('' @ a @ '')'' @ post = [] \<or> \<not> in_cset CWord (hd (s3 @ ''('' @ a @ '')'' @ post))"
    using s3 by (cases s3) (auto simp: paren_class dest: word_not_space)
  have t2: "rm [Plus CWord, GClose, Star CSpace, Lit ''('', Star ?np, Lit k, Star ?np, Lit '')'']
              \<lparr>ms_before = ?b2, ms_rest = g @ s3 @ ''('' @ a @ '')'' @ post, ms_open = [length ?b2], ms_groups = []\<rparr> = Some ?final"
  proof (rule rm_Plus_fwd [OF _ g(1) nw c])
    show "list_all (in_cset CWord) g" using g(2) by (simp add: list_all_iff)
  qed
  have o: "rm [GOpen, Plus CWord, GClose, Star CSpace, Lit ''('', Star ?np, Lit k, Star ?np, Lit '')'']
              \<lparr>ms_before = ?b2, ms_rest = g @ s3 @ ''('' @ a @ '')'' @ post, ms_open = [], ms_groups = []\<rparr> = Some ?final"
    by (simp only: rm_GOpen_eq t2)
  have ns: "g @ s3 @ ''('' @ a @ '')'' @ post = [] \<or> \<not> in_cset CSpace (hd (g @ s3 @ ''('' @ a @ '')'' @ post))"
    using g(1) hg by (cases g) (auto dest: word_not_space)
  have t1: "rm [Plus CSpace, GOpen, Plus CWord, GClose, Star CSpace, Lit ''('', Star ?np, Lit k, Star ?np, Lit '')'']
              \<lparr>ms_before = ?b1, ms_rest = s1 @ g @ s3 @ ''('' @ a @ '')'' @ post, ms_open = [], ms_groups = []\<rparr> = Some ?final"
  proof (rule rm_Plus_fwd [OF _ s1(1) ns o])
    show "list_all (in_cset CSpace) s1" using s1(2) by (simp add: list_all_iff)
  qed
  have t0: "rm [Lit ''const'', Plus CSpace, GOpen, Plus CWord, GClose, Star CSpace, Lit ''('', Star ?np, Lit k, Star ?np, Lit '')'']
              \<lparr>ms_before = pre, ms_rest = ''const'' @ s1 @ g @ s3 @ ''('' @ a @ '')'' @ post, ms_open = [], ms_groups = []\<rparr> = Some ?final"
    by (simp only: rm_Lit_fwd t1)
  have b: "at_boundary \<lparr>ms_before = pre, ms_rest = ''const'' @ s1 @ g @ s3 @ ''('' @ a @ '')'' @ post, ms_open = [], ms_groups = []\<rparr>"
    using pre by (simp add: at_boundary_def word_before_def word_after_def word_ctx_def paren_class)
  have "rm (const_constructor_pattern k)
           \<lparr>ms_before = pre, ms_rest = ''const'' @ s1 @ g @ s3 @ ''('' @ a @ '')'' @ post,
            ms_open = [], ms_groups = []\<rparr> = Some ?final"
    unfolding const_constructor_pattern_def using b t0 by simp
  then show ?thesis by simp
qed

lemma match_at_construction_site:
  assumes "\<not> word_ctx pre" "s1 \<noteq> []" "list_all is_space s1" "g \<noteq> []" "list_all is_word g"
    "list_all is_space s3" "CHR '')'' \<notin> set a" "sublist k a" "CHR '')'' \<notin> set k"
  shows "match_at (const_constructor_pattern k) pre
           (''const'' @ s1 @ g @ s3 @ ''('' @ a @ '')'' @ post)
         = Some \<lparr>m_start = length pre,
                 m_end = length pre + length (''const'' @ s1 @ g @ s3 @ ''('' @ a @ '')''),
                 m_text = ''const'' @ s1 @ g @ s3 @ ''('' @ a @ '')'',
                 m_groups = [g]\<rparr>"
proof -
  let ?t = "''const'' @ s1 @ g @ s3 @ ''('' @ a @ '')''"
  have t: "rev (take (length (rev ?t @ pre) - length pre) (rev ?t @ pre)) = ?t"
    by (rule text_of_cursor)
  have l: "length (rev ?t @ pre) = length pre + length ?t" by simp
  have t': "rev (take (length pre + length ?t - length pre) (rev ?t @ pre)) = ?t"
    using t by (simp only: l)
  show ?thesis
    unfolding match_at_def
    by (simp only: rm_construction_site [OF assms] option.case mstate.select_convs t l t')
qed


lemma find_scan_complete:
  "s = xs @ ys \<Longrightarrow> match_at p (rev xs @ pre) ys = Some m0 \<Longrightarrow> skip \<le> length xs \<Longrightarrow>
   \<forall>m \<in> set (find_scan p skip pre s).
      \<not> (m_start m < length pre + length xs \<and> length pre + length xs < m_end m) \<Longrightarrow>
   m0 \<in> set (find_scan p skip pre s)"
proof (induction p skip pre s arbitrary: xs rule: find_scan.induct)
  case (1 p skip pre)
  then show ?case by simp
next
  case (2 p k pre c cs)
  from 2(2,4) obtain xs' where xs: "xs = c # xs'" "cs = xs' @ ys"
    by (cases xs) auto
  have "m0 \<in> set (find_scan p k (c # pre) cs)"
  proof (rule 2(1) [OF xs(2)])
    show "match_at p (rev xs' @ c # pre) ys = Some m0" using 2(3) by (simp add: xs(1))
    show "k \<le> length xs'" using 2(4) by (simp add: xs(1))
    show "\<forall>m\<in>set (find_scan p k (c # pre) cs).
       \<not> (m_start m < length (c # pre) + length xs' \<and> length (c # pre) + length xs' < m_end m)"
      using 2(5) by (simp add: xs(1))
  qed
  then show ?case by simp
next
  case (3 p pre c cs)
  show ?case
  proof (cases xs)
    case Nil
    with 3(3,4) have "match_at p pre (c # cs) = Some m0" by simp
    then show ?thesis by simp
  next
    case (Cons x xs')
    with 3(3) have xs: "xs = c # xs'" "cs = xs' @ ys" by auto
    have m0: "match_at p (rev xs' @ c # pre) ys = Some m0" using 3(4) by (simp add: xs(1))
    show ?thesis
    proof (cases "match_at p pre (c # cs)")
      case None
      have "m0 \<in> set (find_scan p 0 (c # pre) cs)"
      proof (rule 3(1) [OF None xs(2) m0])
        show "\<forall>m\<in>set (find_scan p 0 (c # pre) cs).
          \<not> (m_start m < length (c # pre) + length xs' \<and> length (c # pre) + length xs' < m_end m)"
          using 3(6) None by (simp add: xs(1))
      qed simp
      with None show ?thesis by simp
    next
      case (Some m)
      from match_at_span [OF Some] have sp: "m_start m = length pre" by simp
      from 3(6) Some have "\<not> (m_start m < length pre + length xs \<and> length pre + length xs < m_end m)"
        by simp
      with sp have le: "m_end m \<le> length pre + length xs" by (simp add: xs(1))
      have "m0 \<in> set (find_scan p (m_len m - 1) (c # pre) cs)"
      proof (rule 3(2) [OF Some xs(2) m0])
        show "m_len m - 1 \<le> length xs'"
          using le sp by (simp add: m_len_def xs(1))
        show "\<forall>m'\<in>set (find_scan p (m_len m - 1) (c # pre) cs).
          \<not> (m_start m' < length (c # pre) + length xs' \<and> length (c # pre) + length xs' < m_end m')"
          using 3(6) Some by (simp add: xs(1))
      qed
      with Some show ?thesis by simp
    qed
  qed
qed

lemma re_finditer_complete:
  assumes "match_at p (rev pre) ys = Some m0"
    "\<forall>m \<in> set (re_finditer p (pre @ ys)). \<not> (m_start m < length pre \<and> length pre < m_end m)"
  shows "m0 \<in> set (re_finditer p (pre @ ys))"
  using find_scan_complete [of "pre @ ys" pre ys p "[]" m0 0] assms
  by (simp add: re_finditer_def)

lemma within_later: "within pos len (ms1 @ m # ms2) \<Longrightarrow> pos \<le> m_start m"
proof (induction ms1 arbitrary: pos)
  case Nil
  then show ?case by simp
next
  case (Cons m1 ms1)
  then have "pos \<le> m_start m1" "m_start m1 \<le> m_end m1" "within (m_end m1) len (ms1 @ m # ms2)"
    by auto
  with Cons.IH [of "m_end m1"] show ?case by simp
qed

lemma rebuild_split:
  "within pos len (ms1 @ m # ms2) \<Longrightarrow>
     rebuild (ms1 @ m # ms2) c pos
       = rebuild ms1 (take (m_start m) c) pos @ site_replacement m @ rebuild ms2 c (m_end m)"
proof (induction ms1 arbitrary: pos)
  case Nil
  have "drop pos (take (m_start m) c) = take (m_start m - pos) (drop pos c)"
    by (simp add: drop_take)
  then show ?case by simp
next
  case (Cons m1 ms1)
  then have b: "pos \<le> m_start m1" "m_start m1 \<le> m_end m1"
    and w: "within (m_end m1) len (ms1 @ m # ms2)"
    by auto
  from within_later [OF w] b have le: "m_start m1 \<le> m_start m" by simp
  have "take (m_start m1 - pos) (drop pos (take (m_start m) c)) = take (m_start m1 - pos) (drop pos c)"
    using le b(1) by (simp add: drop_take min_def)
  with Cons.IH [OF w] show ?case by simp
qed


lemma construction_site_found:
  assumes c: "c = pre @ ''const'' @ s1 @ g @ s3 @ ''('' @ a @ '')'' @ post"
    and left: "pre = [] \<or> \<not> is_word (last pre)"
    and s1: "s1 \<noteq> []" "list_all is_space s1"
    and g: "g \<noteq> []" "list_all is_word g"
    and s3: "list_all is_space s3"
    and a: "CHR '')'' \<notin> set a"
    and k: "sublist k a" "CHR '')'' \<notin> set k"
    and outer: "\<forall>m \<in> set (re_finditer (const_constructor_pattern k) c).
                  \<not> (m_start m < length pre \<and> length pre < m_end m)"
  shows "\<exists>ms1 m ms2. re_finditer (const_constructor_pattern k) c = ms1 @ m # ms2
           \<and> m_start m = length pre
           \<and> m_text m = ''const'' @ s1 @ g @ s3 @ ''('' @ a @ '')''
           \<and> m_groups m = [g]
           \<and> construction_rule c k
               = rebuild ms1 pre 0 @ site_replacement m @ rebuild ms2 c (m_end m)
           \<and> (s1 = '' '' \<longrightarrow>
                construction_rule c k
                  = rebuild ms1 pre 0 @ g @ s3 @ ''('' @ a @ '')'' @ rebuild ms2 c (m_end m))"
proof -
  let ?p = "const_constructor_pattern k"
  let ?t = "''const'' @ s1 @ g @ s3 @ ''('' @ a @ '')''"
  let ?m = "\<lparr>m_start = length (rev pre), m_end = length (rev pre) + length ?t, m_text = ?t,
             m_groups = [g]\<rparr>"
  have w: "\<not> word_ctx (rev pre)"
    using left by (cases pre rule: rev_cases) (simp_all add: word_ctx_def)
  have m: "match_at ?p (rev pre) (?t @ post) = Some ?m"
    using match_at_construction_site [OF w s1 g s3 a k, of post] by simp
  have c': "c = pre @ (?t @ post)" by (simp add: c)
  have "?m \<in> set (re_finditer ?p (pre @ (?t @ post)))"
    by (rule re_finditer_complete [OF m]) (use outer c' in simp)
  then have "?m \<in> set (re_finditer ?p c)" by (simp only: c' [symmetric])
  then obtain ms1 ms2 where sp: "re_finditer ?p c = ms1 @ ?m # ms2"
    by (auto simp: in_set_conv_decomp)
  have "within 0 (length c) (ms1 @ ?m # ms2)"
    using re_finditer_within [of c ?p] by (simp only: sp)
  from rebuild_split [OF this, of c]
  have "rebuild (ms1 @ ?m # ms2) c 0
          = rebuild ms1 (take (m_start ?m) c) 0 @ site_replacement ?m @ rebuild ms2 c (m_end ?m)" .
  moreover have "take (m_start ?m) c = pre" by (simp add: c)
  ultimately have r: "construction_rule c k
      = rebuild ms1 pre 0 @ site_replacement ?m @ rebuild ms2 c (m_end ?m)"
    by (simp only: construction_rule_rebuild sp)
  have "site_replacement ?m = g @ s3 @ ''('' @ a @ '')''" if "s1 = '' ''"
  proof -
    have "replace_first (''const '' @ g) g ((''const '' @ g) @ s3 @ ''('' @ a @ '')'')
            = g @ s3 @ ''('' @ a @ '')''"
      by (rule replace_first_prefix) simp
    then show ?thesis
      by (simp add: site_replacement_def group_def that)
  qed
  with r have "s1 = '' '' \<longrightarrow>
      construction_rule c k = rebuild ms1 pre 0 @ g @ s3 @ ''('' @ a @ '')'' @ rebuild ms2 c (m_end ?m)"
    by simp
  with sp r show ?thesis
    by (intro exI [of _ ms1] exI [of _ ?m] exI [of _ ms2]) simp
qed

lemma const_apart:
  assumes "xs @ ''const'' @ r = pre @ ''const'' @ rest" "length xs < length pre"
  shows "sublist ''const'' pre"
proof -
  from assms obtain us where us: "pre = xs @ us" "''const'' @ r = us @ ''const'' @ rest" "us \<noteq> []"
    by (auto simp: append_eq_append_conv2)
  from us(2,3) obtain us' where "us = ''const'' @ us'"
    by (auto simp: Cons_eq_append_conv)
  with us(1) have "pre = xs @ ''const'' @ us'" by simp
  then show ?thesis unfolding sublist_def by blast
qed

lemma matches_after_first_const:
  assumes c: "c = pre @ ''const'' @ rest" and n: "\<not> sublist ''const'' pre"
    and m: "m \<in> set (re_finditer (const_constructor_pattern k) c)"
  shows "length pre \<le> m_start m"
proof (rule ccontr)
  assume "\<not> length pre \<le> m_start m"
  then have l: "m_start m < length pre" by simp
  from re_finditer_text [OF m] have t: "m_text m = take (m_len m) (drop (m_start m) c)" .
  from construction_site_match [OF m] obtain r where r: "m_text m = ''const'' @ r"
    by auto
  define d where "d = drop (m_start m) c"
  define r' where "r' = r @ drop (m_len m) d"
  from t r have "take (m_len m) d = ''const'' @ r"
    by (simp only: d_def)
  then have "take (m_len m) d @ drop (m_len m) d = (''const'' @ r) @ drop (m_len m) d"
    by (rule arg_cong)
  then have "d = ''const'' @ r'"
    by (simp only: append_take_drop_id append_assoc r'_def)
  moreover have "c = take (m_start m) c @ d"
    by (simp only: d_def append_take_drop_id)
  ultimately have e: "c = take (m_start m) c @ ''const'' @ r'"
    by (simp only:)
  from l c have "length (take (m_start m) c) < length pre" by simp
  moreover from e c have "take (m_start m) c @ ''const'' @ r' = pre @ ''const'' @ rest"
    by (simp only:)
  ultimately have "sublist ''const'' pre"
    by (rule const_apart [rotated])
  with n show False by simp
qed

section \<open>The bare-usage rule\<close>

lemma word_hd: "k \<noteq> [] \<Longrightarrow> list_all is_word k \<Longrightarrow> is_word (hd k)"
  by (cases k) simp_all

lemma word_last: "k \<noteq> [] \<Longrightarrow> list_all is_word k \<Longrightarrow> is_word (last k)"
  by (simp add: list_all_iff)

lemma match_at_pattern4_prefix:
  assumes "k \<noteq> []" "list_all is_word k"
  shows "match_at (pattern4 k) pre (k @ r) =
     (if \<not> word_ctx pre \<and> follow_ok r
      then Some \<lparr>m_start = length pre, m_end = length pre + length k, m_text = k, m_groups = []\<rparr>
      else None)"
proof -
  let ?st0 = "\<lparr>ms_before = pre, ms_rest = k @ r, ms_open = [], ms_groups = []\<rparr>"
  let ?st1 = "\<lparr>ms_before = rev k @ pre, ms_rest = r, ms_open = [], ms_groups = []\<rparr>"
  have a0: "at_boundary ?st0 = (\<not> word_ctx pre)"
    using assms word_hd [OF assms]
    by (cases k) (auto simp: at_boundary_def word_before_def word_after_def word_ctx_def)
  have adv: "advance (length k) ?st0 = ?st1"
    by (simp add: advance_def)
  have "is_word (hd (rev k))"
    using word_last [OF assms] assms(1) by (simp add: hd_rev)
  then have wb1: "word_before ?st1"
    using assms(1) by (cases "rev k") (auto simp: word_before_def)
  have a1: "at_boundary ?st1 = (\<not> word_after ?st1)"
    using wb1 by (auto simp: at_boundary_def)
  have f: "(\<not> word_after ?st1 \<and> (case r of [] \<Rightarrow> True | c # _ \<Rightarrow> \<not> (is_word c \<or> c = CHR ''.'')))
             = follow_ok r"
    by (cases r) (auto simp: word_after_def follow_ok_def)
  have "rm (pattern4 k) ?st0 =
     (if at_boundary ?st0 then
        if at_boundary ?st1 then
          (case r of [] \<Rightarrow> Some ?st1
           | c # _ \<Rightarrow> if is_word c \<or> c = CHR ''.'' then None else Some ?st1)
        else None
      else None)"
    by (simp add: pattern4_def adv split: list.split)
  also have "\<dots> = (if \<not> word_ctx pre \<and> follow_ok r then Some ?st1 else None)"
    unfolding a0 a1 using f by (cases r) auto
  finally show ?thesis
    by (simp add: match_at_def)
qed

lemma match_at_pattern4:
  assumes "k \<noteq> []" "list_all is_word k"
  shows "match_at (pattern4 k) pre s =
     (if prefix k s \<and> \<not> word_ctx pre \<and> follow_ok (drop (length k) s)
      then Some \<lparr>m_start = length pre, m_end = length pre + length k, m_text = k, m_groups = []\<rparr>
      else None)"
proof (cases "prefix k s")
  case False
  then show ?thesis
    by (simp add: match_at_def pattern4_def)
next
  case True
  then obtain r where s: "s = k @ r" by (auto simp: prefix_def)
  show ?thesis
    unfolding s using match_at_pattern4_prefix [OF assms, of pre r] by simp
qed

lemma sub_scan_skip:
  "length xs = n \<Longrightarrow> sub_scan p t n pre (xs @ ys) = sub_scan p t 0 (rev xs @ pre) ys"
proof (induction xs arbitrary: n pre)
  case Nil
  then show ?case by simp
next
  case (Cons x xs)
  then obtain n' where n: "n = Suc n'" "length xs = n'" by auto
  from Cons.IH [OF n(2), of "x # pre"] show ?case by (simp add: n(1))
qed

lemma qualify_Nil:
  assumes "k \<noteq> []" "list_all is_word k"
  shows "qualify k pre [] = []"
  using assms by (simp add: qualify_def match_at_pattern4 [OF assms])

lemma qualify_hit:
  assumes "k \<noteq> []" "list_all is_word k" "\<not> word_ctx pre" "follow_ok r"
  shows "qualify k pre (k @ r) = ''dev.'' @ k @ qualify k (rev k @ pre) r"
proof -
  from assms(1) obtain c k' where k: "k = c # k'" by (cases k) auto
  let ?m = "\<lparr>m_start = length pre, m_end = length pre + length k, m_text = k, m_groups = []\<rparr>"
  have m: "match_at (pattern4 k) pre (c # k' @ r) = Some ?m"
    using match_at_pattern4_prefix [OF assms(1,2), of pre r] assms(3,4) by (simp add: k)
  have l: "m_len ?m = Suc (length k')" by (simp add: m_len_def k)
  have e: "expand (replacement4 k) ?m = ''dev.'' @ k" by (simp add: replacement4_def)
  have "qualify k pre (k @ r) = sub_scan (pattern4 k) (replacement4 k) 0 pre (c # k' @ r)"
    by (simp add: qualify_def k)
  also have "\<dots> = expand (replacement4 k) ?m
                 @ sub_scan (pattern4 k) (replacement4 k) (length k') (c # pre) (k' @ r)"
    by (simp add: m l)
  also have "sub_scan (pattern4 k) (replacement4 k) (length k') (c # pre) (k' @ r)
             = sub_scan (pattern4 k) (replacement4 k) 0 (rev k @ pre) r"
    using sub_scan_skip [of k' "length k'" "pattern4 k" "replacement4 k" "c # pre" r]
    by (simp add: k)
  finally show ?thesis
    by (simp only: e qualify_def append_assoc)
qed

lemma qualify_miss:
  assumes "k \<noteq> []" "list_all is_word k"
    "\<not> (prefix k (c # cs) \<and> \<not> word_ctx pre \<and> follow_ok (drop (length k) (c # cs)))"
  shows "qualify k pre (c # cs) = c # qualify k (c # pre) cs"
proof -
  have "match_at (pattern4 k) pre (c # cs) = None"
    using assms(3) by (simp only: match_at_pattern4 [OF assms(1,2)] if_False)
  then show ?thesis by (simp add: qualify_def)
qed

lemma qualify_nonword:
  assumes "k \<noteq> []" "list_all is_word k" "\<not> is_word x"
  shows "qualify k pre (x # r) = x # qualify k (x # pre) r"
proof (rule qualify_miss [OF assms(1,2)])
  from assms have "\<not> prefix k (x # r)"
    by (cases k) auto
  then show "\<not> (prefix k (x # r) \<and> \<not> word_ctx pre \<and> follow_ok (drop (length k) (x # r)))"
    by simp
qed

lemma qualify_word_run:
  assumes "k \<noteq> []" "list_all is_word k"
  shows "word_ctx pre \<Longrightarrow> list_all is_word ws \<Longrightarrow>
         qualify k pre (ws @ r) = ws @ qualify k (rev ws @ pre) r"
proof (induction ws arbitrary: pre)
  case Nil
  then show ?case by simp
next
  case (Cons w ws)
  have "qualify k pre (w # ws @ r) = w # qualify k (w # pre) (ws @ r)"
    using Cons.prems(1) by (intro qualify_miss [OF assms]) simp
  moreover have "word_ctx (w # pre)"
    using Cons.prems(2) by (simp add: word_ctx_def)
  ultimately show ?case
    using Cons.IH [of "w # pre"] Cons.prems(2) by simp
qed

lemma word_ctx_rev: "ps \<noteq> [] \<Longrightarrow> word_ctx (rev ps @ ctx) = is_word (last ps)"
  by (cases ps rule: rev_cases) (simp_all add: word_ctx_def)

lemma is_word_dev: "is_word CHR ''d''" "is_word CHR ''e''" "is_word CHR ''v''" "\<not> is_word CHR ''.''"
  by (simp_all add: is_word_def)

lemma occurrence_at_dev:
  assumes "k \<noteq> []" "list_all is_word k" "k @ ss = ''dev.'' @ t"
  shows "\<not> follow_ok ss"
proof -
  from assms(1) obtain a k1 where k: "k = a # k1" by (cases k) auto
  show ?thesis
  proof (cases k1)
    case Nil
    with assms(3) k show ?thesis by (auto simp: follow_ok_def is_word_dev)
  next
    case (Cons b k2)
    note k1 = this
    show ?thesis
    proof (cases k2)
      case Nil
      with assms(3) k k1 show ?thesis by (auto simp: follow_ok_def is_word_dev)
    next
      case (Cons c k3)
      note k2 = this
      show ?thesis
      proof (cases k3)
        case Nil
        with assms(3) k k1 k2 show ?thesis by (auto simp: follow_ok_def is_word_dev)
      next
        case (Cons d k4)
        with assms(2,3) k k1 k2 show ?thesis by (auto simp: is_word_dev)
      qed
    qed
  qed
qed

lemma inside_replacement:
  assumes "list_all is_word k" "''dev.'' @ k = ps @ x2" "ps \<noteq> []"
  shows "ps = ''dev.'' \<or> is_word (last ps)"
proof -
  from assms(2) have "prefix ps (''dev.'' @ k)"
    by (metis prefixI)
  then consider "ps = ''d''" | "ps = ''de''" | "ps = ''dev''"
    | q where "ps = ''dev.'' @ q" "prefix q k"
    using assms(3) by (auto simp: prefix_Cons)
  then show ?thesis
  proof cases
    case 4
    show ?thesis
    proof (cases "q = []")
      case True
      with 4 show ?thesis by simp
    next
      case False
      then have "last q \<in> set k"
        using 4(2) by (meson last_in_set set_mono_prefix subsetD)
      with assms(1) False 4(1) show ?thesis
        by (simp add: list_all_iff)
    qed
  qed (simp_all add: is_word_dev)
qed

lemma word_run_eq:
  assumes "list_all is_word ws" "tail = [] \<or> \<not> is_word (hd tail)"
  shows "k \<noteq> [] \<Longrightarrow> list_all is_word k \<Longrightarrow> k @ ss = ws @ tail \<Longrightarrow> follow_ok ss \<Longrightarrow>
         k = ws \<and> ss = tail"
  using assms(1)
proof (induction ws arbitrary: k)
  case Nil
  then have "tail \<noteq> []" "hd tail = hd k" by (cases k; auto)+
  with Nil assms(2) show ?case by (cases k) auto
next
  case (Cons w ws)
  from Cons.prems(1,3) obtain k' where k: "k = w # k'" "k' @ ss = ws @ tail"
    by (cases k) auto
  show ?case
  proof (cases "k' = []")
    case True
    with k have ss: "ss = ws @ tail" by simp
    have "ws = []"
    proof (rule ccontr)
      assume "ws \<noteq> []"
      then obtain v vs where "ws = v # vs" by (cases ws) auto
      with Cons.prems(4,5) ss show False by (simp add: follow_ok_def)
    qed
    with True k ss show ?thesis by simp
  next
    case False
    from Cons.IH [OF False _ k(2) Cons.prems(4)] Cons.prems(2,5) k(1) show ?thesis
      by simp
  qed
qed

lemma append_split:
  assumes "ps @ w = X @ Y"
  shows "(\<exists>q. ps = X @ q \<and> Y = q @ w) \<or> (\<exists>x2. x2 \<noteq> [] \<and> X = ps @ x2 \<and> w = x2 @ Y)"
proof -
  from assms [unfolded append_eq_append_conv2]
  obtain us where "ps = X @ us \<and> us @ w = Y \<or> ps @ us = X \<and> w = us @ Y"
    by blast
  then show ?thesis
    by (cases "us = []") auto
qed

lemma not_word_hd_dropWhile: "dropWhile is_word cs = x # r' \<Longrightarrow> \<not> is_word x"
  using hd_dropWhile [of is_word cs] by simp

lemma word_run_split:
  obtains ws r where "cs = ws @ r" "list_all is_word ws" "r = [] \<or> \<not> is_word (hd r)"
proof
  show "cs = takeWhile is_word cs @ dropWhile is_word cs" by simp
  show "list_all is_word (takeWhile is_word cs)"
    by (simp add: list_all_iff) (meson set_takeWhileD)
  show "dropWhile is_word cs = [] \<or> \<not> is_word (hd (dropWhile is_word cs))"
    using hd_dropWhile [of is_word cs] by blast
qed

lemma qualify_tail:
  assumes "k \<noteq> []" "list_all is_word k" "r = [] \<or> \<not> is_word (hd r)"
  shows "qualify k pre r = [] \<or> \<not> is_word (hd (qualify k pre r))"
proof (cases r)
  case Nil
  then show ?thesis by (simp add: qualify_Nil [OF assms(1,2)])
next
  case (Cons x r')
  with assms(3) have "\<not> is_word x" by simp
  with Cons show ?thesis by (simp add: qualify_nonword [OF assms(1,2)])
qed

lemma qualify_follow:
  assumes "k \<noteq> []" "list_all is_word k" "r = [] \<or> \<not> is_word (hd r)"
    "follow_ok (qualify k pre r)"
  shows "follow_ok r"
proof (cases r)
  case Nil
  then show ?thesis by (simp add: follow_ok_def)
next
  case (Cons x r')
  with assms(3) have "\<not> is_word x" by simp
  with Cons assms(4) show ?thesis
    by (simp add: qualify_nonword [OF assms(1,2)] follow_ok_def)
qed

lemma qualify_no_bare:
  assumes k: "k \<noteq> []" "list_all is_word k"
  shows "word_ctx ctx = word_ctx pre \<Longrightarrow> qualify k pre s = ps @ k @ ss \<Longrightarrow>
         \<not> word_ctx (rev ps @ ctx) \<Longrightarrow> follow_ok ss \<Longrightarrow>
         prefix (rev ''dev.'') (rev ps @ ctx)"
proof (induction "length s" arbitrary: s pre ctx ps rule: less_induct)
  case less
  note ctx = less.prems(1) and out = less.prems(2) and left = less.prems(3) and foll = less.prems(4)
  show ?case
  proof (cases s)
    case Nil
    with out k show ?thesis by (simp add: qualify_Nil [OF k])
  next
    case (Cons c cs)
    show ?thesis
    proof (cases "prefix k s \<and> \<not> word_ctx pre \<and> follow_ok (drop (length k) s)")
      case True
      then obtain r where s: "s = k @ r" and np: "\<not> word_ctx pre" and fr: "follow_ok r"
        by (auto simp: prefix_def)
      have q: "qualify k pre s = (''dev.'' @ k) @ qualify k (rev k @ pre) r"
        unfolding s using qualify_hit [OF k np fr] by simp
      from out q have "ps @ (k @ ss) = (''dev.'' @ k) @ qualify k (rev k @ pre) r"
        by simp
      from append_split [OF this] consider
          (after) q' where "ps = (''dev.'' @ k) @ q'" "qualify k (rev k @ pre) r = q' @ k @ ss"
        | (inside) x2 where "x2 \<noteq> []" "''dev.'' @ k = ps @ x2" "k @ ss = x2 @ qualify k (rev k @ pre) r"
        by blast
      then show ?thesis
      proof cases
        case after
        have l: "length r < length s" using k(1) by (simp add: s)
        let ?ctx = "rev (''dev.'' @ k) @ ctx"
        have w: "word_ctx ?ctx = word_ctx (rev k @ pre)"
          using k(1) by (cases k rule: rev_cases) (simp_all add: word_ctx_def)
        have e: "rev q' @ ?ctx = rev ps @ ctx"
          by (simp add: after(1))
        have "\<not> word_ctx (rev q' @ ?ctx)"
          unfolding e by (rule left)
        from less.hyps [OF l w after(2) this foll]
        have "prefix (rev ''dev.'') (rev q' @ ?ctx)" .
        then show ?thesis
          unfolding e .
      next
        case inside
        show ?thesis
        proof (cases "ps = []")
          case True
          with inside(2,3) have "k @ ss = ''dev.'' @ k @ qualify k (rev k @ pre) r"
            by simp
          from occurrence_at_dev [OF k this] foll show ?thesis by simp
        next
          case False
          from inside_replacement [OF k(2) inside(2) False] left
          have "ps = ''dev.''"
            by (simp add: word_ctx_rev [OF False])
          then show ?thesis by simp
        qed
      qed
    next
      case False
      then have q: "qualify k pre s = c # qualify k (c # pre) cs"
        unfolding Cons by (rule qualify_miss [OF k])
      show ?thesis
      proof (cases ps)
        case (Cons p ps')
        with out q have "p = c \<and> qualify k (c # pre) cs = ps' @ k @ ss"
          by auto
        then have p: "p = c" and o: "qualify k (c # pre) cs = ps' @ k @ ss"
          by blast+
        have l: "length cs < length s" by (simp add: \<open>s = c # cs\<close>)
        have w: "word_ctx (c # ctx) = word_ctx (c # pre)" by (simp add: word_ctx_def)
        have e: "rev ps' @ c # ctx = rev ps @ ctx" by (simp add: Cons p)
        have "\<not> word_ctx (rev ps' @ c # ctx)"
          unfolding e by (rule left)
        from less.hyps [OF l w o this foll]
        have "prefix (rev ''dev.'') (rev ps' @ c # ctx)" .
        then show ?thesis
          unfolding e .
      next
        case Nil
        with out q have o: "k @ ss = c # qualify k (c # pre) cs" by simp
        with k have wc: "is_word c" by (cases k) auto
        obtain ws r where cs: "cs = ws @ r" and wws: "list_all is_word ws"
          and r: "r = [] \<or> \<not> is_word (hd r)"
          by (rule word_run_split)
        let ?tail = "qualify k (rev ws @ c # pre) r"
        have ws: "list_all is_word (c # ws)"
          using wc wws by simp
        have "qualify k (c # pre) (ws @ r) = ws @ ?tail"
          using wws by (intro qualify_word_run [OF k]) (simp_all add: word_ctx_def wc)
        then have o': "k @ ss = (c # ws) @ ?tail"
          using o by (simp add: cs)
        have t: "?tail = [] \<or> \<not> is_word (hd ?tail)"
          by (rule qualify_tail [OF k r])
        from word_run_eq [OF ws t k o' foll] have kk: "k = c # ws" "ss = ?tail"
          by simp_all
        have fr: "follow_ok r"
          using foll unfolding kk(2) by (rule qualify_follow [OF k r])
        have s: "s = k @ r"
          using kk(1) by (simp add: \<open>s = c # cs\<close> cs)
        have "prefix k s \<and> \<not> word_ctx pre \<and> follow_ok (drop (length k) s)"
          using left fr ctx by (simp add: Nil s)
        with False show ?thesis by simp
      qed
    qed
  qed
qed

lemma bare_usage_rule_no_bare:
  assumes "k \<noteq> []" "list_all is_word k"
    "bare_usage_rule c k = ps @ k @ ss"
    "ps = [] \<or> \<not> is_word (last ps)"
    "ss = [] \<or> (\<not> is_word (hd ss) \<and> hd ss \<noteq> CHR ''.'')"
  shows "suffix ''dev.'' ps"
proof -
  have q: "qualify k [] c = ps @ k @ ss"
    using assms(3) by (simp add: bare_usage_rule_def re_sub_def qualify_def)
  have l: "\<not> word_ctx (rev ps @ [])"
  proof (cases "ps = []")
    case True
    then show ?thesis by (simp add: word_ctx_def)
  next
    case False
    with assms(4) show ?thesis
      by (simp only: word_ctx_rev [OF False]) simp
  qed
  have f: "follow_ok ss"
    using assms(5) by (cases ss) (simp_all add: follow_ok_def)
  from qualify_no_bare [OF assms(1,2) _ q l f] have "prefix (rev ''dev.'') (rev ps @ [])"
    by simp
  then show ?thesis
    by (simp add: suffix_to_prefix)
qed

lemma registry_identifiers: "list_all (\<lambda>k. k \<noteq> [] \<and> list_all is_word k) CONSTANTS"
  by code_simp

lemma example_bare_usage:
  "fst (process_constant_in_content ''a = kClientName; b = kClientName.length;'' ''kClientName'')
     = ''a = dev.kClientName; b = kClientName.length;''"
  by code_simp

text \<open>
  One application of the engine for an identifier of the registry, on content that does
  not hold \<^verbatim>\<open>dev.<identifier>\<close>: every whole-word occurrence in the result that the
  pattern of the bare-usage rule can match, one followed neither by a word character nor
  by a dot, is the suffix of \<^verbatim>\<open>dev.<identifier>\<close>.
\<close>

lemma no_bare_usage_left:
  assumes "k \<in> set CONSTANTS" "\<not> sublist (''dev.'' @ k) c"
  shows "\<forall>ps ss. fst (process_constant_in_content c k) = ps @ k @ ss
           \<and> (ps = [] \<or> \<not> is_word (last ps))
           \<and> (ss = [] \<or> (\<not> is_word (hd ss) \<and> hd ss \<noteq> CHR ''.''))
         \<longrightarrow> suffix ''dev.'' ps"
proof (intro allI impI)
  fix ps ss
  assume h: "fst (process_constant_in_content c k) = ps @ k @ ss
           \<and> (ps = [] \<or> \<not> is_word (last ps))
           \<and> (ss = [] \<or> (\<not> is_word (hd ss) \<and> hd ss \<noteq> CHR ''.''))"
  from assms(1) registry_identifiers have k: "k \<noteq> []" "list_all is_word k"
    by (auto simp: list_all_iff)
  show "suffix ''dev.'' ps"
  proof (cases "sublist k c")
    case False
    with assms(2) have "fst (process_constant_in_content c k) = c"
      by (simp add: engine_stages)
    with h have "sublist k c"
      by (metis sublist_appendI)
    with False show ?thesis by simp
  next
    case True
    with assms(2) have "fst (process_constant_in_content c k) = bare_usage_rule (after_rule3 c k) k"
      by (simp add: engine_stages)
    with h bare_usage_rule_no_bare [OF k, of "after_rule3 c k" ps ss] show ?thesis
      by simp
  qed
qed

lemma no_bare_usage_left_example:
  "''kClientName'' \<in> set CONSTANTS
   \<and> \<not> sublist (''dev.'' @ ''kClientName'') ''a = kClientName; b = kClientName.length;''
   \<and> fst (process_constant_in_content ''a = kClientName; b = kClientName.length;'' ''kClientName'')
       = ''a = dev.'' @ ''kClientName'' @ ''; b = kClientName.length;''
   \<and> suffix ''dev.'' ''a = dev.''"
proof -
  have m: "''kClientName'' \<in> set CONSTANTS"
    by code_simp
  have n: "\<not> sublist (''dev.'' @ ''kClientName'') ''a = kClientName; b = kClientName.length;''"
    by code_simp
  have e: "fst (process_constant_in_content ''a = kClientName; b = kClientName.length;'' ''kClientName'')
       = ''a = dev.'' @ ''kClientName'' @ ''; b = kClientName.length;''"
    using example_bare_usage by simp
  have w: "\<not> is_word (last ''a = dev.'')" "\<not> is_word (hd ''; b = kClientName.length;'')"
    by (simp_all add: is_word_def)
  from no_bare_usage_left [OF m n, rule_format, of "''a = dev.''" "''; b = kClientName.length;''"] e w
  have "suffix ''dev.'' ''a = dev.''"
    by simp
  with m n e show ?thesis by blast
qed

text \<open>The three worlds, evaluated.\<close>

lemma full_pass_usage:
  "full_pass ''double a = kScrollWheelVelocity * 2;'' = ''double a = dev.kScrollWheelVelocity * 2;''"
  by code_simp

lemma full_pass_plain: "full_pass ''int x = 1;'' = ''int x = 1;''"
  by code_simp

lemma find_example:
  "find_dart_files (tree example_world) = [''./a.dart'', ''./b.dart'', ''./c.dart'']"
  by code_simp


lemma main_faulty_world:
  "out (main faulty_world) =
     [Starting, Finding, Found 3,
      Processing ''./a.dart'', Replacing ''kScrollWheelVelocity'', ErrorWriting OpenError,
      Processing ''./b.dart'', NoChangesNeeded,
      Processing ''./c.dart'', ErrorReading ReadError,
      Finished 0 3, NextSteps, StepAnalyze, StepPubGet, StepRun]"
  by code_simp

lemma main_example_world:
  "out (main example_world) =
     [Starting, Finding, Found 3,
      Processing ''./a.dart'', Replacing ''kScrollWheelVelocity'', Updated [''kScrollWheelVelocity''],
      Processing ''./b.dart'', NoChangesNeeded,
      Processing ''./c.dart'', ErrorReading ReadError,
      Finished 1 3, NextSteps, StepAnalyze, StepPubGet, StepRun, RunAgain]"
  by code_simp

lemma due_write_count:
  "count_list (map fst (concat (map (due_write w) fs))) q \<le> count_list fs q"
  by (induction fs) (auto simp: due_write_def split: sum.splits)

lemma example_tree: "wf_tree (tree example_world)"
  by code_simp


section \<open>The engine on single inputs\<close>

text \<open>
  C1. Declaration demotion: for the content \<^verbatim>\<open>const int kFoo = kDirectionConeHalfAngle;\<close>
  one pass of the engine for \<^verbatim>\<open>kDirectionConeHalfAngle\<close> should give
  \<^verbatim>\<open>final int kFoo = dev.kDirectionConeHalfAngle;\<close>, the initializer qualified exactly once.
  The engine qualifies it twice: the declaration rule writes \<^verbatim>\<open>dev.kDirectionConeHalfAngle\<close>,
  and the bare-usage rule, whose lookahead looks only at what follows the identifier,
  matches the identifier after the dot and qualifies it again.
\<close>

theorem declaration_demotion_qualifies_twice:
  "process_constant_in_content ''const int kFoo = kDirectionConeHalfAngle;''
     ''kDirectionConeHalfAngle''
   = (''final int kFoo = dev.dev.kDirectionConeHalfAngle;'', True)"
  by code_simp

text \<open>
  C4. Word boundaries: the engine for \<^verbatim>\<open>kNodeRingColorPending\<close> should leave alone a text
  whose only occurrence of it lies inside \<^verbatim>\<open>kNodeRingColorPendingEdit\<close>. The
  construction-site pattern holds the identifier without word boundaries, so the engine
  removes the \<^verbatim>\<open>const\<close> of a constructor call whose argument is the longer identifier.
\<close>

theorem construction_rule_matches_inside_longer_identifier:
  "process_constant_in_content ''const Color(kNodeRingColorPendingEdit)''
     ''kNodeRingColorPending''
   = (''Color(kNodeRingColorPendingEdit)'', True)"
  by code_simp

text \<open>
  C6. Short circuit: when the content already holds \<^verbatim>\<open>dev.<constant>\<close>, or does not hold
  the constant at all, the engine returns the content as it is with \<^verbatim>\<open>changed = False\<close>,
  before its first rule (it does not reach the \<^verbatim>\<open>print\<close> that precedes the rules).
\<close>

theorem short_circuit_unchanged:
  assumes "sublist (''dev.'' @ constant) content \<or> \<not> sublist constant content"
  shows "process_constant_in_content content constant = (content, False)
         \<and> replacing content constant = []"
  using assms by (auto simp: process_constant_in_content_def replacing_def)

theorem short_circuit_unchanged_witness:
  "sublist (''dev.'' @ ''kClientName'') ''a = dev.kClientName; b = kClientName;''
   \<and> process_constant_in_content ''a = dev.kClientName; b = kClientName;'' ''kClientName''
       = (''a = dev.kClientName; b = kClientName;'', False)
   \<and> \<not> sublist ''kClientName'' ''int x = 1;''
   \<and> process_constant_in_content ''int x = 1;'' ''kClientName'' = (''int x = 1;'', False)"
proof -
  have h1: "sublist (''dev.'' @ ''kClientName'') ''a = dev.kClientName; b = kClientName;''"
    by code_simp
  have h2: "\<not> sublist ''kClientName'' ''int x = 1;''"
    by code_simp
  from h1 h2
    short_circuit_unchanged [of "''kClientName''" "''a = dev.kClientName; b = kClientName;''"]
    short_circuit_unchanged [of "''kClientName''" "''int x = 1;''"]
  show ?thesis by blast
qed

section \<open>File discovery on a tree\<close>

text \<open>
  C8. File discovery should return every \<^verbatim>\<open>.dart\<close> file but the one file named
  \<^verbatim>\<open>dev_config.dart\<close>. The test \<^verbatim>\<open>'dev_config.dart' not in path\<close> looks for the name
  anywhere in the path: it also drops a file whose name ends with that name and every
  file under a directory whose name holds it.
\<close>

theorem find_dart_files_excludes_more:
  "find_dart_files
     [Dir ''lib'' [File ''dev_config.dart'', File ''my_dev_config.dart'', File ''main.dart''],
      Dir ''dev_config.dart.d'' [File ''widget.dart'']]
   = [''./lib/main.dart'']"
  by code_simp

section \<open>Running the engine twice\<close>

text \<open>
  C2. Idempotence: applying the engine to the result of a first application should return
  that result with \<^verbatim>\<open>changed = False\<close>; the script's comment calls its test for
  \<^verbatim>\<open>dev.<constant>\<close> the idempotence check, and its closing message says that it can be
  run again safely. The engine is not idempotent. Where a construction site lies inside
  another and the identifier is followed by a dot, the first application removes the outer
  \<^verbatim>\<open>const\<close> only and writes no \<^verbatim>\<open>dev.<constant>\<close>; the second application then finds
  the inner site, removes its \<^verbatim>\<open>const\<close> and reports a change.
\<close>

theorem second_application_changes:
  "process_constant_in_content ''const A(const B(kClientName.length))'' ''kClientName''
     = (''A(const B(kClientName.length))'', True)
   \<and> process_constant_in_content ''A(const B(kClientName.length))'' ''kClientName''
     = (''A(B(kClientName.length))'', True)
   \<and> process_constant_in_content
         (fst (process_constant_in_content ''const A(const B(kClientName.length))'' ''kClientName''))
         ''kClientName''
     \<noteq> (fst (process_constant_in_content ''const A(const B(kClientName.length))'' ''kClientName''),
        False)"
  by code_simp

section \<open>The construction-site rule\<close>

text \<open>
  C5, as the script has it. The construction-site rule rewrites the matches of its
  pattern, found from left to right and not overlapping; working through them from the
  end backward gives the content built from left to right, the text outside the matches
  as it was. Each match is a span \<^verbatim>\<open>const\<close>, white space, a callee, optional white space
  and an argument list up to the first closing parenthesis that holds the identifier.

  Conversely, every such span is rewritten unless it lies inside another match: a span
  \<^verbatim>\<open>const\<close>, white space, a callee, optional white space and a parenthesised argument
  list without a closing parenthesis inside that holds the identifier, not preceded by
  a word character and with no match of the rule beginning before it and ending after
  its beginning, is one of the matches; the content before it and the content after it
  are rewritten on their own. No match begins before the first \<^verbatim>\<open>const\<close> of the
  content. Where one space separates \<^verbatim>\<open>const\<close> from the callee, the
  span is replaced by itself without its leading \<^verbatim>\<open>const \<close>. So
  \<^verbatim>\<open>const Cone(kDirectionConeHalfAngle, color: kDirectionConeColor)\<close> becomes
  \<^verbatim>\<open>Cone(dev.kDirectionConeHalfAngle, color: dev.kDirectionConeColor)\<close> after the full pass.
\<close>

theorem construction_rule_effect:
  "construction_rule c k = rebuild (re_finditer (const_constructor_pattern k) c) c 0
   \<and> within 0 (length c) (re_finditer (const_constructor_pattern k) c)
   \<and> (\<forall>m \<in> set (re_finditer (const_constructor_pattern k) c).
        m_text m = take (m_len m) (drop (m_start m) c)
        \<and> (\<exists>s1 g s3 a1 a2.
              m_text m = ''const'' @ s1 @ g @ s3 @ ''('' @ a1 @ k @ a2 @ '')''
            \<and> s1 \<noteq> [] \<and> list_all is_space s1 \<and> g \<noteq> [] \<and> list_all is_word g
            \<and> list_all is_space s3 \<and> CHR '')'' \<notin> set a1 \<and> CHR '')'' \<notin> set a2
            \<and> group m 1 = g
            \<and> (s1 = '' '' \<longrightarrow> site_replacement m = g @ s3 @ ''('' @ a1 @ k @ a2 @ '')'')))
   \<and> (c = pre @ ''const'' @ s1 @ g @ s3 @ ''('' @ a @ '')'' @ post
        \<and> (pre = [] \<or> \<not> is_word (last pre))
        \<and> s1 \<noteq> [] \<and> list_all is_space s1 \<and> g \<noteq> [] \<and> list_all is_word g \<and> list_all is_space s3
        \<and> CHR '')'' \<notin> set a \<and> sublist k a \<and> CHR '')'' \<notin> set k
        \<and> (\<forall>m \<in> set (re_finditer (const_constructor_pattern k) c).
               \<not> (m_start m < length pre \<and> length pre < m_end m))
      \<longrightarrow> (\<exists>ms1 m ms2. re_finditer (const_constructor_pattern k) c = ms1 @ m # ms2
             \<and> m_start m = length pre
             \<and> m_text m = ''const'' @ s1 @ g @ s3 @ ''('' @ a @ '')''
             \<and> m_groups m = [g]
             \<and> construction_rule c k
                 = rebuild ms1 pre 0 @ site_replacement m @ rebuild ms2 c (m_end m)
             \<and> (s1 = '' '' \<longrightarrow>
                  construction_rule c k
                    = rebuild ms1 pre 0 @ g @ s3 @ ''('' @ a @ '')'' @ rebuild ms2 c (m_end m))))
   \<and> (c = pre @ ''const'' @ rest \<and> \<not> sublist ''const'' pre
      \<longrightarrow> (\<forall>m \<in> set (re_finditer (const_constructor_pattern k) c). length pre \<le> m_start m))
   \<and> full_pass ''const Cone(kDirectionConeHalfAngle, color: kDirectionConeColor)''
        = ''Cone(dev.kDirectionConeHalfAngle, color: dev.kDirectionConeColor)''"
proof (intro conjI)
  show "construction_rule c k = rebuild (re_finditer (const_constructor_pattern k) c) c 0"
    by (rule construction_rule_rebuild)
  show "within 0 (length c) (re_finditer (const_constructor_pattern k) c)"
    by (rule re_finditer_within)
  show "\<forall>m \<in> set (re_finditer (const_constructor_pattern k) c).
        m_text m = take (m_len m) (drop (m_start m) c)
        \<and> (\<exists>s1 g s3 a1 a2.
              m_text m = ''const'' @ s1 @ g @ s3 @ ''('' @ a1 @ k @ a2 @ '')''
            \<and> s1 \<noteq> [] \<and> list_all is_space s1 \<and> g \<noteq> [] \<and> list_all is_word g
            \<and> list_all is_space s3 \<and> CHR '')'' \<notin> set a1 \<and> CHR '')'' \<notin> set a2
            \<and> group m 1 = g
            \<and> (s1 = '' '' \<longrightarrow> site_replacement m = g @ s3 @ ''('' @ a1 @ k @ a2 @ '')''))"
    using re_finditer_text [of _ "const_constructor_pattern k" c] construction_site_match [of _ k c]
    by blast
  show "c = pre @ ''const'' @ s1 @ g @ s3 @ ''('' @ a @ '')'' @ post
        \<and> (pre = [] \<or> \<not> is_word (last pre))
        \<and> s1 \<noteq> [] \<and> list_all is_space s1 \<and> g \<noteq> [] \<and> list_all is_word g \<and> list_all is_space s3
        \<and> CHR '')'' \<notin> set a \<and> sublist k a \<and> CHR '')'' \<notin> set k
        \<and> (\<forall>m \<in> set (re_finditer (const_constructor_pattern k) c).
               \<not> (m_start m < length pre \<and> length pre < m_end m))
      \<longrightarrow> (\<exists>ms1 m ms2. re_finditer (const_constructor_pattern k) c = ms1 @ m # ms2
             \<and> m_start m = length pre
             \<and> m_text m = ''const'' @ s1 @ g @ s3 @ ''('' @ a @ '')''
             \<and> m_groups m = [g]
             \<and> construction_rule c k
                 = rebuild ms1 pre 0 @ site_replacement m @ rebuild ms2 c (m_end m)
             \<and> (s1 = '' '' \<longrightarrow>
                  construction_rule c k
                    = rebuild ms1 pre 0 @ g @ s3 @ ''('' @ a @ '')'' @ rebuild ms2 c (m_end m)))"
  proof
    assume h: "c = pre @ ''const'' @ s1 @ g @ s3 @ ''('' @ a @ '')'' @ post
        \<and> (pre = [] \<or> \<not> is_word (last pre))
        \<and> s1 \<noteq> [] \<and> list_all is_space s1 \<and> g \<noteq> [] \<and> list_all is_word g \<and> list_all is_space s3
        \<and> CHR '')'' \<notin> set a \<and> sublist k a \<and> CHR '')'' \<notin> set k
        \<and> (\<forall>m \<in> set (re_finditer (const_constructor_pattern k) c).
               \<not> (m_start m < length pre \<and> length pre < m_end m))"
    show "\<exists>ms1 m ms2. re_finditer (const_constructor_pattern k) c = ms1 @ m # ms2
             \<and> m_start m = length pre
             \<and> m_text m = ''const'' @ s1 @ g @ s3 @ ''('' @ a @ '')''
             \<and> m_groups m = [g]
             \<and> construction_rule c k
                 = rebuild ms1 pre 0 @ site_replacement m @ rebuild ms2 c (m_end m)
             \<and> (s1 = '' '' \<longrightarrow>
                  construction_rule c k
                    = rebuild ms1 pre 0 @ g @ s3 @ ''('' @ a @ '')'' @ rebuild ms2 c (m_end m))"
      by (rule construction_site_found) (use h in blast)+
  qed
  show "c = pre @ ''const'' @ rest \<and> \<not> sublist ''const'' pre
      \<longrightarrow> (\<forall>m \<in> set (re_finditer (const_constructor_pattern k) c). length pre \<le> m_start m)"
    using matches_after_first_const [of c pre rest _ k] by blast
  show "full_pass ''const Cone(kDirectionConeHalfAngle, color: kDirectionConeColor)''
        = ''Cone(dev.kDirectionConeHalfAngle, color: dev.kDirectionConeColor)''"
    by (rule cone_full_pass)
qed

theorem construction_rule_effect_witness:
  "re_finditer (const_constructor_pattern ''kClientName'') ''x = const Text(kClientName);''
     = [\<lparr>m_start = 4, m_end = 27, m_text = ''const Text(kClientName)'', m_groups = [''Text'']\<rparr>]
   \<and> ''x = const Text(kClientName);''
       = ''x = '' @ ''const'' @ '' '' @ ''Text'' @ [] @ ''('' @ ''kClientName'' @ '')'' @ '';''
   \<and> sublist ''kClientName'' ''kClientName''
   \<and> \<not> sublist ''const'' ''x = ''
   \<and> construction_rule ''x = const Text(kClientName);'' ''kClientName'' = ''x = Text(kClientName);''"
proof -
  let ?c = "''x = const Text(kClientName);''" and ?k = "''kClientName''"
  let ?m0 = "\<lparr>m_start = 4, m_end = 27, m_text = ''const Text(kClientName)'', m_groups = [''Text'']\<rparr>"
  have c: "?c = ''x = '' @ ''const'' @ '' '' @ ''Text'' @ [] @ ''('' @ ''kClientName'' @ '')'' @ '';''"
    by simp
  have left: "''x = '' = [] \<or> \<not> is_word (last ''x = '')" by (simp add: is_word_def)
  have s1: "'' '' \<noteq> []" "list_all is_space '' ''" by (simp_all add: is_space_def)
  have g: "''Text'' \<noteq> []" "list_all is_word ''Text''" by (simp_all add: is_word_def)
  have s3: "list_all is_space []" by simp
  have a: "CHR '')'' \<notin> set ''kClientName''" by simp
  have k: "sublist ?k ''kClientName''" by simp
  have c': "?c = ''x = '' @ ''const'' @ '' Text(kClientName);''" by simp
  have nc: "\<not> sublist ''const'' ''x = ''" by code_simp
  note effect = construction_rule_effect [where c = ?c and k = ?k and pre = "''x = ''"
      and ?s1.0 = "'' ''" and g = "''Text''" and ?s3.0 = "[]" and a = "''kClientName''"
      and post = "'';''" and rest = "'' Text(kClientName);''"]
  from effect c' nc
  have "\<forall>m \<in> set (re_finditer (const_constructor_pattern ?k) ?c). length ''x = '' \<le> m_start m"
    by blast
  then have outer: "\<forall>m \<in> set (re_finditer (const_constructor_pattern ?k) ?c).
                 \<not> (m_start m < length ''x = '' \<and> length ''x = '' < m_end m)"
    by auto
  from effect c left s1 g s3 a k outer
  obtain ms1 m ms2 where r: "re_finditer (const_constructor_pattern ?k) ?c = ms1 @ m # ms2"
    "construction_rule ?c ?k
       = rebuild ms1 ''x = '' 0 @ ''Text'' @ [] @ ''('' @ ''kClientName'' @ '')'' @ rebuild ms2 ?c (m_end m)"
    by blast
  from r(1) have "ms1 = [] \<and> m = ?m0 \<and> ms2 = []"
    by (simp add: example_site Cons_eq_append_conv)
  with r(2) have "construction_rule ?c ?k = ''x = Text(kClientName);''"
    by simp
  with c k nc example_site show ?thesis by blast
qed

text \<open>
  The claim C5 as stated, for every span \<^verbatim>\<open>const <Callee>(<argument-list>)\<close> whose
  argument list holds the identifier, fails in two ways. A construction site inside the
  argument list of another keeps its \<^verbatim>\<open>const\<close>: it lies inside the outer match. And a
  site whose argument list holds a call before the identifier keeps its \<^verbatim>\<open>const\<close>: the
  pattern's argument list ends at the first closing parenthesis.
\<close>

theorem nested_construction_site_kept:
  "construction_rule ''const A(const B(kClientName))'' ''kClientName'' = ''A(const B(kClientName))''
   \<and> process_constant_in_content ''const A(const B(kClientName))'' ''kClientName''
       = (''A(const B(dev.kClientName))'', True)
   \<and> construction_rule ''const A(f(x), kClientName)'' ''kClientName'' = ''const A(f(x), kClientName)''
   \<and> process_constant_in_content ''const A(f(x), kClientName)'' ''kClientName''
       = (''const A(f(x), dev.kClientName)'', True)"
  by code_simp

section \<open>What the full pass leaves bare\<close>

text \<open>
  C3. Exclusivity of qualification: after one full pass no whole-word occurrence of an
  identifier of the registry should be left in the content except as the suffix of
  \<^verbatim>\<open>dev.<identifier>\<close>; the script's comment on its last rule says that it replaces any
  remaining instance of the constant. The full pass leaves an identifier bare where a dot
  follows it, as in a member access: the pattern of the bare-usage rule ends in a lookahead
  that refuses a following dot, so the occurrence is never matched and the content comes
  back as it was read. (By the script's comment the lookahead is there to keep the rule off
  the \<^verbatim>\<open>dev.<identifier>\<close> already written; it looks at the wrong side of the
  identifier, and so it also lets the rule qualify such an identifier a second time.)
\<close>

theorem bare_usage_before_dot_kept:
  "full_pass ''a = kClientName.length;'' = ''a = kClientName.length;''
   \<and> \<not> sublist ''dev.'' (full_pass ''a = kClientName.length;'')
   \<and> ''kClientName'' \<in> set CONSTANTS
   \<and> process_constant_in_content ''a = kClientName.length;'' ''kClientName''
       = (''a = kClientName.length;'', False)"
  by code_simp

section \<open>The orchestrator: writing back, errors and the summary\<close>

text \<open>
  C7. The orchestrator writes a file back if and only if the content after the full pass
  differs from the content read. \<^verbatim>\<open>process_file\<close> starts exactly one write, of the new
  content, when the content changed, and then, unless the write fails, the file holds the
  new content; it starts none when the content did not change or the file could not be
  read, and the disk is then as it was; no other file is touched. In a run of \<^verbatim>\<open>main\<close>
  a path is written at most as often as file discovery lists it; in a tree as a file
  system holds it that is at most once: the writes of the run are exactly the due writes
  of the discovered files, a file with no due write is on disk as before, and a file whose
  write succeeds holds its new content.
\<close>

theorem write_back_iff_changed:
  "(disk w path = Inr original \<longrightarrow>
      wlog (snd (process_file path w))
        = wlog w @ (if full_pass original \<noteq> original then [(path, full_pass original)] else [])
      \<and> (full_pass original = original \<longrightarrow> disk (snd (process_file path w)) = disk w)
      \<and> (full_pass original \<noteq> original \<and> wfault w path = None \<longrightarrow>
            fst (process_file path w)
            \<and> disk (snd (process_file path w)) = (disk w)(path := Inr (full_pass original))))
   \<and> (disk w path = Inl e \<longrightarrow>
      wlog (snd (process_file path w)) = wlog w \<and> disk (snd (process_file path w)) = disk w)
   \<and> (\<forall>q. q \<noteq> path \<longrightarrow> disk (snd (process_file path w)) q = disk w q)
   \<and> (\<exists>ws. wlog (main w) = wlog w @ ws
          \<and> (\<forall>q. count_list (map fst ws) q \<le> count_list (find_dart_files (tree w)) q)
          \<and> (distinct (find_dart_files (tree w)) \<longrightarrow> (\<forall>q. count_list (map fst ws) q \<le> 1)))
   \<and> (wf_tree (tree w) \<longrightarrow>
        wlog (main w) = wlog w @ concat (map (due_write w) (find_dart_files (tree w)))
        \<and> (\<forall>q. count_list (map fst (concat (map (due_write w) (find_dart_files (tree w))))) q \<le> 1)
        \<and> (\<forall>q. due_write w q = [] \<longrightarrow> disk (main w) q = disk w q)
        \<and> (\<forall>q c. q \<in> set (find_dart_files (tree w)) \<and> disk w q = Inr c \<and> full_pass c \<noteq> c
                 \<and> wfault w q = None \<longrightarrow> disk (main w) q = Inr (full_pass c)))"
proof (intro conjI impI allI)
  assume r: "disk w path = Inr original"
  show "wlog (snd (process_file path w))
        = wlog w @ (if full_pass original \<noteq> original then [(path, full_pass original)] else [])"
    using r by (simp add: process_file_wlog due_write_def)
  show "disk (snd (process_file path w)) = disk w" if "full_pass original = original"
    using r that by (simp add: process_file_unchanged)
  show "fst (process_file path w)"
    and "disk (snd (process_file path w)) = (disk w)(path := Inr (full_pass original))"
    if "full_pass original \<noteq> original \<and> wfault w path = None"
    using process_file_written [OF r, of ] that by simp_all
next
  assume r: "disk w path = Inl e"
  then show "wlog (snd (process_file path w)) = wlog w"
    and "disk (snd (process_file path w)) = disk w"
    by (simp_all add: process_file_read_error print_def)
next
  fix q assume "q \<noteq> path"
  then show "disk (snd (process_file path w)) q = disk w q"
    by (rule process_file_frame)
next
  have "\<exists>ws. wlog (main w) = wlog w @ ws
          \<and> (\<forall>q. count_list (map fst ws) q \<le> count_list (find_dart_files (tree w)) q)"
  proof (cases "find_dart_files (tree w) = []")
    case True
    then show ?thesis by (simp add: main_no_files)
  next
    case False
    from main_some_files [OF False] show ?thesis by blast
  qed
  then obtain ws where ws: "wlog (main w) = wlog w @ ws"
    "\<forall>q. count_list (map fst ws) q \<le> count_list (find_dart_files (tree w)) q"
    by blast
  have "\<forall>q. count_list (map fst ws) q \<le> 1" if "distinct (find_dart_files (tree w))"
  proof
    fix q
    from ws(2) have "count_list (map fst ws) q \<le> count_list (find_dart_files (tree w)) q"
      by blast
    also have "\<dots> \<le> 1" by (rule distinct_count_list_le [OF that])
    finally show "count_list (map fst ws) q \<le> 1" .
  qed
  with ws show "\<exists>ws. wlog (main w) = wlog w @ ws
          \<and> (\<forall>q. count_list (map fst ws) q \<le> count_list (find_dart_files (tree w)) q)
          \<and> (distinct (find_dart_files (tree w)) \<longrightarrow> (\<forall>q. count_list (map fst ws) q \<le> 1))"
    by blast
next
  assume "wf_tree (tree w)"
  then have d: "distinct (find_dart_files (tree w))"
    by (rule find_dart_files_distinct)
  let ?fs = "find_dart_files (tree w)"
  show "wlog (main w) = wlog w @ concat (map (due_write w) ?fs)"
    using process_files_wlog [OF d, of 0 "started w"]
    by (simp add: main_files started_same)
  show "count_list (map fst (concat (map (due_write w) ?fs))) q \<le> 1" for q
    using due_write_count [of w ?fs q] distinct_count_list_le [OF d, of q] by simp
  show "disk (main w) q = disk w q" if "due_write w q = []" for q
    using process_files_untouched [of "started w" q ?fs 0] that d
    by (simp add: main_files started_same)
  show "disk (main w) q = Inr (full_pass c)"
    if "q \<in> set ?fs \<and> disk w q = Inr c \<and> full_pass c \<noteq> c \<and> wfault w q = None" for q c
    using process_files_written [OF d, of q "started w" c 0] that
    by (simp add: main_files started_same)
qed

theorem write_back_iff_changed_witness:
  "disk example_world ''./a.dart'' = Inr ''double a = kScrollWheelVelocity * 2;''
   \<and> wfault example_world ''./a.dart'' = None
   \<and> wlog (snd (process_file ''./a.dart'' example_world))
       = [(''./a.dart'', ''double a = dev.kScrollWheelVelocity * 2;'')]
   \<and> disk (snd (process_file ''./a.dart'' example_world)) ''./a.dart''
       = Inr ''double a = dev.kScrollWheelVelocity * 2;''
   \<and> disk example_world ''./b.dart'' = Inr ''int x = 1;''
   \<and> wlog (snd (process_file ''./b.dart'' example_world)) = []
   \<and> disk (snd (process_file ''./b.dart'' example_world)) = disk example_world
   \<and> disk example_world ''./c.dart'' = Inl ReadError
   \<and> wlog (snd (process_file ''./c.dart'' example_world)) = []
   \<and> wf_tree (tree example_world)
   \<and> wlog (main example_world) = [(''./a.dart'', ''double a = dev.kScrollWheelVelocity * 2;'')]
   \<and> disk (main example_world) ''./a.dart'' = Inr ''double a = dev.kScrollWheelVelocity * 2;''
   \<and> disk (main example_world) ''./b.dart'' = Inr ''int x = 1;''"
proof -
  have a: "disk example_world ''./a.dart'' = Inr ''double a = kScrollWheelVelocity * 2;''"
    and b: "disk example_world ''./b.dart'' = Inr ''int x = 1;''"
    and c: "disk example_world ''./c.dart'' = Inl ReadError"
    and l: "wlog example_world = []"
    and f: "wfault example_world ''./a.dart'' = None"
    by (simp_all add: example_world_def)
  have n: "full_pass ''double a = kScrollWheelVelocity * 2;'' \<noteq> ''double a = kScrollWheelVelocity * 2;''"
    by (simp add: full_pass_usage)
  have m: "''./a.dart'' \<in> set (find_dart_files (tree example_world))"
    by (simp add: find_example)
  have dw: "due_write example_world ''./a.dart'' = [(''./a.dart'', ''double a = dev.kScrollWheelVelocity * 2;'')]"
    "due_write example_world ''./b.dart'' = []" "due_write example_world ''./c.dart'' = []"
    by (simp_all add: due_write_def a b c full_pass_usage full_pass_plain)
  note t1 = write_back_iff_changed [of example_world "''./a.dart''" "''double a = kScrollWheelVelocity * 2;''"]
  note t2 = write_back_iff_changed [of example_world "''./b.dart''" "''int x = 1;''"]
  note t3 = write_back_iff_changed [of example_world "''./c.dart''" _ ReadError]
  from t1 a f n l have p1: "wlog (snd (process_file ''./a.dart'' example_world))
       = [(''./a.dart'', ''double a = dev.kScrollWheelVelocity * 2;'')]"
    "disk (snd (process_file ''./a.dart'' example_world)) ''./a.dart''
       = Inr ''double a = dev.kScrollWheelVelocity * 2;''"
    by (simp_all add: full_pass_usage)
  from t2 b l have p2: "wlog (snd (process_file ''./b.dart'' example_world)) = []"
    "disk (snd (process_file ''./b.dart'' example_world)) = disk example_world"
    by (simp_all add: full_pass_plain)
  from t3 c l have p3: "wlog (snd (process_file ''./c.dart'' example_world)) = []"
    by simp
  from t1 example_tree have
    r1: "wlog (main example_world) = wlog example_world
           @ concat (map (due_write example_world) (find_dart_files (tree example_world)))"
    and r2: "\<forall>q. due_write example_world q = [] \<longrightarrow> disk (main example_world) q = disk example_world q"
    and r3: "\<forall>q c. q \<in> set (find_dart_files (tree example_world)) \<and> disk example_world q = Inr c
               \<and> full_pass c \<noteq> c \<and> wfault example_world q = None
               \<longrightarrow> disk (main example_world) q = Inr (full_pass c)"
    by blast+
  from r1 have q1: "wlog (main example_world) = [(''./a.dart'', ''double a = dev.kScrollWheelVelocity * 2;'')]"
    by (simp add: l find_example dw)
  from r3 m a n f
  have "disk (main example_world) ''./a.dart'' = Inr (full_pass ''double a = kScrollWheelVelocity * 2;'')"
    by blast
  then have q2: "disk (main example_world) ''./a.dart'' = Inr ''double a = dev.kScrollWheelVelocity * 2;''"
    by (simp only: full_pass_usage)
  from r2 dw(2) b have q3: "disk (main example_world) ''./b.dart'' = Inr ''int x = 1;''"
    by simp
  from a f p1 b p2 c p3 example_tree q1 q2 q3 show ?thesis by blast
qed






end
